theory Spec2Isabelle
  imports Complex_Main "HOL-Library.Multiset"
begin

section \<open>Data model of \<open>index.ts\<close>\<close>

text \<open>
  JavaScript numbers are modelled as mathematical numbers: the counts of the
  configuration (\<open>populationSize\<close>, \<open>maxGenerations\<close>, \<open>elitismCount\<close>,
  \<open>tournamentSize\<close>, \<open>maxEquationLength\<close>) as \<open>int\<close> (they may be zero or negative:
  the constructor checks nothing), everything that is computed with (\<open>target\<close>, the two
  rates, \<open>solution\<close>, \<open>fitness\<close>) as \<open>real\<close>. The run does not depend on how the
  fitness is rounded; what rounding and overflow of IEEE doubles do to the fitness
  function is modelled in a section of its own, on which the claim about the fitness
  function is settled. Strings are lists of characters; every chromosome the algorithm
  builds consists of the ASCII characters \<open>0123456789+-*/\<close>.
\<close>

record Agent =
  chromosome :: string
  fitness :: real
  solution :: real
  equation :: string

record Config =
  populationSize :: int
  target :: real
  maxGenerations :: int
  mutationRate :: real
  crossoverRate :: real
  elitismCount :: int
  tournamentSize :: int
  maxEquationLength :: int

definition DEFAULT_CONFIG :: Config where
  "DEFAULT_CONFIG =
     \<lparr> populationSize = 50, target = 42, maxGenerations = 1000, mutationRate = 1 / 10,
       crossoverRate = 7 / 10, elitismCount = 5, tournamentSize = 3,
       maxEquationLength = 20 \<rparr>"

text \<open>
  Objects live in a store: an address is an index into the list \<open>heap\<close>, allocation
  appends a cell. \<open>population\<close> is an array of references, as in the source, so that
  copying an agent and sharing it are different things. \<open>cursor\<close> counts the calls of
  \<open>Math.random()\<close> made so far; the numbers it returns are a parameter
  \<open>rs :: nat \<Rightarrow> real\<close> of the functions that draw (call number \<open>k\<close> returns \<open>rs k\<close>).
\<close>

type_synonym ref = nat

type_synonym rng = "nat \<Rightarrow> real"

record GeneticAlgorithm =
  config :: Config
  heap :: "Agent list"
  population :: "ref list"
  generation :: int
  bestFitnessHistory :: "real list"
  cursor :: nat

datatype error = TypeError

text \<open>\<open>Math.random()\<close> returns a number in \<open>[0, 1)\<close>.\<close>

definition valid_rng :: "rng \<Rightarrow> bool" where
  "valid_rng rs = (\<forall>k. 0 \<le> rs k \<and> rs k < 1)"

section \<open>SafeEvaluator\<close>

text \<open>
  The parser of the library \<open>expr-eval\<close> is not part of the repository. It is a
  parameter \<open>P\<close>: what \<open>parser.parse(cleaned).evaluate({})\<close> does on a string, namely
  throw, or return a value that is not of type number, a number that is not finite, or a
  finite number.
\<close>

datatype parse_result = Thrown | NotANumber | NonFinite | Finite real

type_synonym parser = "string \<Rightarrow> parse_result"

definition digits :: string where
  "digits = ''0123456789''"

definition operators :: string where
  "operators = ''+-*/''"

text \<open>
  \<open>cleanExpression\<close> removes every character outside \<open>[0-9+\-*/().\s]\<close>, then
  every run of whitespace, then trims. Whichever characters count as whitespace, what
  remains are the characters \<open>0123456789+-*/().\<close> of the string, in their order
  (lemma \<open>cleanExpression_filter\<close>).
\<close>

definition isSpace :: "char \<Rightarrow> bool" where
  "isSpace c = (c \<in> set [CHR 0x09, CHR 0x0A, CHR 0x0B, CHR 0x0C, CHR 0x0D, CHR '' ''])"

definition keptChar :: "char \<Rightarrow> bool" where
  "keptChar c = (c \<in> set ''0123456789+-*/().'' \<or> isSpace c)"

definition trim :: "string \<Rightarrow> string" where
  "trim s = rev (dropWhile isSpace (rev (dropWhile isSpace s)))"

definition cleanExpression :: "string \<Rightarrow> string" where
  "cleanExpression expr = trim (filter (\<lambda>c. \<not> isSpace c) (filter keptChar expr))"

text \<open>
  The loop over the parentheses: \<open>None\<close> is the early \<open>return false\<close> at a negative
  balance, \<open>Some b\<close> the balance at the end of the string.
\<close>

fun balanceLoop :: "int \<Rightarrow> string \<Rightarrow> int option" where
  "balanceLoop balance [] = Some balance"
| "balanceLoop balance (c # cs) =
     (let b1 = (if c = CHR ''('' then balance + 1 else balance);
          b2 = (if c = CHR '')'' then b1 - 1 else b1)
      in if b2 < 0 then None else balanceLoop b2 cs)"

text \<open>The test of the regular expression \<open>/[+\-*/]{2,}/\<close>.\<close>

fun consecutiveOperators :: "string \<Rightarrow> bool" where
  "consecutiveOperators (a # b # cs) =
     ((a \<in> set ''+-*/'' \<and> b \<in> set ''+-*/'') \<or> consecutiveOperators (b # cs))"
| "consecutiveOperators _ = False"

definition isValidExpression :: "string \<Rightarrow> bool" where
  "isValidExpression expr =
     (if expr = [] then False
      else case balanceLoop 0 expr of
        None \<Rightarrow> False
      | Some balance \<Rightarrow>
          if balance \<noteq> 0 then False
          else if consecutiveOperators expr then False
          else True)"

definition evaluate :: "parser \<Rightarrow> string \<Rightarrow> real option" where
  "evaluate P expression =
     (let cleaned = cleanExpression expression
      in if \<not> isValidExpression cleaned then None
         else case P cleaned of
           Finite result \<Rightarrow> Some result
         | _ \<Rightarrow> None)"

text \<open>
  A parser given by a finite table, which throws on every string outside the table: the
  parameter \<open>P\<close> at which the theorems below are instantiated on concrete inputs.
\<close>

definition table_parser :: "(string \<times> real) list \<Rightarrow> parser" where
  "table_parser tbl s = (case map_of tbl s of Some v \<Rightarrow> Finite v | None \<Rightarrow> Thrown)"

section \<open>Fitness and the creation of agents\<close>

text \<open>
  The fitness as a function on the real numbers: the value that the code computes when
  none of its operations rounds or overflows (lemma \<open>calculateFitness64_exact\<close>). The
  run uses it to score and to order agents. The function as binary64 arithmetic computes
  it is \<open>calculateFitness64\<close> below.
\<close>

definition calculateFitness :: "Config \<Rightarrow> real \<Rightarrow> real" where
  "calculateFitness cfg sol =
     (let err = \<bar>sol - target cfg\<bar>
      in if err = 0 then 1 else 1 / (1 + err))"

text \<open>\<open>evaluate(chromosome) ?? 0\<close>\<close>

definition solutionOf :: "parser \<Rightarrow> string \<Rightarrow> real" where
  "solutionOf P c = (case evaluate P c of None \<Rightarrow> 0 | Some v \<Rightarrow> v)"

definition alloc :: "Agent \<Rightarrow> GeneticAlgorithm \<Rightarrow> ref \<times> GeneticAlgorithm" where
  "alloc a s = (length (heap s), s\<lparr>heap := heap s @ [a]\<rparr>)"

definition createAgentFromChromosome ::
    "parser \<Rightarrow> string \<Rightarrow> GeneticAlgorithm \<Rightarrow> ref \<times> GeneticAlgorithm" where
  "createAgentFromChromosome P c s =
     (let sol = solutionOf P c;
          fit = calculateFitness (config s) sol
      in alloc \<lparr> chromosome = c, fitness = fit, solution = sol, equation = c \<rparr> s)"

definition cloneAgent :: "ref \<Rightarrow> GeneticAlgorithm \<Rightarrow> ref \<times> GeneticAlgorithm" where
  "cloneAgent p s =
     (let agent = heap s ! p
      in alloc \<lparr> chromosome = chromosome agent, fitness = fitness agent,
                 solution = solution agent, equation = equation agent \<rparr> s)"

section \<open>The constructor\<close>

text \<open>
  \<open>Partial<Config>\<close>: a field that is absent is \<open>None\<close>, and
  \<open>{ ...DEFAULT_CONFIG, ...config }\<close> takes the default for it.
\<close>

record PartialConfig =
  populationSize_opt :: "int option"
  target_opt :: "real option"
  maxGenerations_opt :: "int option"
  mutationRate_opt :: "real option"
  crossoverRate_opt :: "real option"
  elitismCount_opt :: "int option"
  tournamentSize_opt :: "int option"
  maxEquationLength_opt :: "int option"

definition orDefault :: "'a option \<Rightarrow> 'a \<Rightarrow> 'a" where
  "orDefault v d = (case v of None \<Rightarrow> d | Some x \<Rightarrow> x)"

definition mergeConfig :: "PartialConfig \<Rightarrow> Config" where
  "mergeConfig pc =
     \<lparr> populationSize = orDefault (populationSize_opt pc) (populationSize DEFAULT_CONFIG),
       target = orDefault (target_opt pc) (target DEFAULT_CONFIG),
       maxGenerations = orDefault (maxGenerations_opt pc) (maxGenerations DEFAULT_CONFIG),
       mutationRate = orDefault (mutationRate_opt pc) (mutationRate DEFAULT_CONFIG),
       crossoverRate = orDefault (crossoverRate_opt pc) (crossoverRate DEFAULT_CONFIG),
       elitismCount = orDefault (elitismCount_opt pc) (elitismCount DEFAULT_CONFIG),
       tournamentSize = orDefault (tournamentSize_opt pc) (tournamentSize DEFAULT_CONFIG),
       maxEquationLength =
         orDefault (maxEquationLength_opt pc) (maxEquationLength DEFAULT_CONFIG) \<rparr>"

text \<open>
  The constructor stores the merged configuration and empty run state; it checks nothing
  and cannot fail. The store is empty and no random number has been drawn.
\<close>

definition new_GeneticAlgorithm :: "PartialConfig \<Rightarrow> GeneticAlgorithm" where
  "new_GeneticAlgorithm pc =
     \<lparr> config = mergeConfig pc, heap = [], population = [], generation = 0,
       bestFitnessHistory = [], cursor = 0 \<rparr>"

section \<open>Random choices\<close>

definition Math_random :: "rng \<Rightarrow> GeneticAlgorithm \<Rightarrow> real \<times> GeneticAlgorithm" where
  "Math_random rs s = (rs (cursor s), s\<lparr>cursor := Suc (cursor s)\<rparr>)"

text \<open>\<open>Math.floor(Math.random() * n)\<close>\<close>

definition randomIndex :: "rng \<Rightarrow> int \<Rightarrow> GeneticAlgorithm \<Rightarrow> nat \<times> GeneticAlgorithm" where
  "randomIndex rs n s =
     (case Math_random rs s of (r, s1) \<Rightarrow> (nat \<lfloor>r * real_of_int n\<rfloor>, s1))"

text \<open>\<open>charSet[Math.floor(Math.random() * charSet.length)]\<close>\<close>

definition randomChar :: "rng \<Rightarrow> string \<Rightarrow> GeneticAlgorithm \<Rightarrow> char \<times> GeneticAlgorithm" where
  "randomChar rs charSet s =
     (case randomIndex rs (int (length charSet)) s of (i, s1) \<Rightarrow> (charSet ! i, s1))"

section \<open>Random equations and the initial population\<close>

text \<open>
  The \<open>for\<close> loop of \<open>generateRandomEquation\<close>, by the number of iterations left. The
  condition \<open>expectingOperator && Math.random() > 0.3\<close> draws a number only when
  \<open>expectingOperator\<close> holds.
\<close>

fun equationLoop ::
    "rng \<Rightarrow> nat \<Rightarrow> string \<Rightarrow> bool \<Rightarrow> GeneticAlgorithm \<Rightarrow> (string \<times> bool) \<times> GeneticAlgorithm" where
  "equationLoop rs 0 eq expectingOperator s = ((eq, expectingOperator), s)"
| "equationLoop rs (Suc n) eq expectingOperator s =
     (case (if expectingOperator
            then (case Math_random rs s of (r, s1) \<Rightarrow> (r > 3 / 10, s1))
            else (False, s)) of
        (placeOperator, s1) \<Rightarrow>
          if placeOperator
          then (case randomChar rs operators s1 of
                  (c, s2) \<Rightarrow> equationLoop rs n (eq @ [c]) False s2)
          else (case randomChar rs digits s1 of
                  (c, s2) \<Rightarrow> equationLoop rs n (eq @ [c]) True s2))"

definition generateRandomEquation :: "rng \<Rightarrow> GeneticAlgorithm \<Rightarrow> string \<times> GeneticAlgorithm" where
  "generateRandomEquation rs s =
     (case Math_random rs s of
        (r, s1) \<Rightarrow>
          let len = \<lfloor>r * real_of_int (maxEquationLength (config s) - 3)\<rfloor> + 3
          in case equationLoop rs (nat len) [] False s1 of
               ((eq, expectingOperator), s2) \<Rightarrow>
                 if expectingOperator
                 then (case randomChar rs digits s2 of (c, s3) \<Rightarrow> (eq @ [c], s3))
                 else (eq, s2))"

definition createRandomAgent ::
    "parser \<Rightarrow> rng \<Rightarrow> GeneticAlgorithm \<Rightarrow> ref \<times> GeneticAlgorithm" where
  "createRandomAgent P rs s =
     (case generateRandomEquation rs s of
        (c, s1) \<Rightarrow> createAgentFromChromosome P c s1)"

fun initLoop :: "parser \<Rightarrow> rng \<Rightarrow> nat \<Rightarrow> GeneticAlgorithm \<Rightarrow> GeneticAlgorithm" where
  "initLoop P rs 0 s = s"
| "initLoop P rs (Suc n) s =
     (case createRandomAgent P rs s of
        (a, s1) \<Rightarrow> initLoop P rs n (s1\<lparr>population := population s1 @ [a]\<rparr>))"

definition initializePopulation ::
    "parser \<Rightarrow> rng \<Rightarrow> GeneticAlgorithm \<Rightarrow> GeneticAlgorithm" where
  "initializePopulation P rs s =
     initLoop P rs (nat (populationSize (config s))) (s\<lparr>population := []\<rparr>)"

section \<open>Evaluation pass\<close>

definition rescore :: "parser \<Rightarrow> Config \<Rightarrow> Agent \<Rightarrow> Agent" where
  "rescore P cfg agent =
     (let sol = solutionOf P (chromosome agent)
      in agent\<lparr>solution := sol, fitness := calculateFitness cfg sol\<rparr>)"

definition getBestAgent :: "GeneticAlgorithm \<Rightarrow> ref option" where
  "getBestAgent s = (if length (population s) = 0 then None else Some (population s ! 0))"

text \<open>
  \<open>evaluateFitness\<close> rescores every agent of the population in place, sorts the array
  of references by descending fitness (\<open>Array.prototype.sort\<close> is stable) and records
  the fitness of \<open>population[0]\<close>. On an empty population \<open>best\<close> is \<open>undefined\<close> and
  \<open>best.fitness\<close> throws a TypeError.
\<close>

definition evaluateFitness :: "parser \<Rightarrow> GeneticAlgorithm \<Rightarrow> error + GeneticAlgorithm" where
  "evaluateFitness P s =
     (let h = fold (\<lambda>p h. h[p := rescore P (config s) (h ! p)]) (population s) (heap s);
          sorted_pop = sort_key (\<lambda>p. - fitness (h ! p)) (population s)
      in case sorted_pop of
           [] \<Rightarrow> Inl TypeError
         | best # _ \<Rightarrow>
             Inr (s\<lparr>heap := h, population := sorted_pop,
                    bestFitnessHistory := bestFitnessHistory s @ [fitness (h ! best)]\<rparr>))"

section \<open>Selection\<close>

fun tournamentLoop ::
    "rng \<Rightarrow> nat \<Rightarrow> ref list \<Rightarrow> GeneticAlgorithm \<Rightarrow> ref list \<times> GeneticAlgorithm" where
  "tournamentLoop rs 0 tournament s = (tournament, s)"
| "tournamentLoop rs (Suc n) tournament s =
     (case randomIndex rs (int (length (population s))) s of
        (i, s1) \<Rightarrow> tournamentLoop rs n (tournament @ [population s ! i]) s1)"

text \<open>
  \<open>reduce\<close> without an initial value throws a TypeError on an empty array, which is the
  tournament when \<open>tournamentSize \<le> 0\<close>. On an empty population every entry of the
  tournament is \<open>undefined\<close>, and the first read of a property of the selected parent
  (in \<open>reduce\<close>, \<open>crossover\<close> or \<open>cloneAgent\<close>) throws a TypeError: the model raises it
  here.
\<close>

definition tournamentSelection ::
    "rng \<Rightarrow> GeneticAlgorithm \<Rightarrow> error + (ref \<times> GeneticAlgorithm)" where
  "tournamentSelection rs s =
     (if population s = [] then Inl TypeError
      else case tournamentLoop rs (nat (tournamentSize (config s))) [] s of
        (tournament, s1) \<Rightarrow>
          (case tournament of
             [] \<Rightarrow> Inl TypeError
           | first # rest \<Rightarrow>
               Inr (foldl (\<lambda>best current.
                        if fitness (heap s ! current) > fitness (heap s ! best)
                        then current else best) first rest, s1)))"

text \<open>\<open>xs.slice(0, end)\<close>: a negative \<open>end\<close> counts from the end of the array.\<close>

definition slice0 :: "int \<Rightarrow> 'a list \<Rightarrow> 'a list" where
  "slice0 e xs = (if e < 0 then take (nat (int (length xs) + e)) xs else take (nat e) xs)"

fun cloneAll :: "ref list \<Rightarrow> GeneticAlgorithm \<Rightarrow> ref list \<times> GeneticAlgorithm" where
  "cloneAll [] s = ([], s)"
| "cloneAll (p # ps) s =
     (case cloneAgent p s of
        (a, s1) \<Rightarrow> (case cloneAll ps s1 of (as, s2) \<Rightarrow> (a # as, s2)))"

definition selectElite :: "GeneticAlgorithm \<Rightarrow> ref list \<times> GeneticAlgorithm" where
  "selectElite s = cloneAll (slice0 (elitismCount (config s)) (population s)) s"

section \<open>Crossover and mutation\<close>

definition crossover ::
    "parser \<Rightarrow> rng \<Rightarrow> ref \<Rightarrow> ref \<Rightarrow> GeneticAlgorithm \<Rightarrow> ref \<times> GeneticAlgorithm" where
  "crossover P rs parent1 parent2 s =
     (let chrom1 = chromosome (heap s ! parent1);
          chrom2 = chromosome (heap s ! parent2)
      in case randomIndex rs (int (length chrom1)) s of
        (point1, s1) \<Rightarrow>
          (case randomIndex rs (int (length chrom2)) s1 of
             (point2, s2) \<Rightarrow>
               let child1Chromosome = take point1 chrom1 @ drop point2 chrom2;
                   child2Chromosome = take point2 chrom2 @ drop point1 chrom1
               in case createAgentFromChromosome P child1Chromosome s2 of
                 (child1, s3) \<Rightarrow>
                   (case createAgentFromChromosome P child2Chromosome s3 of
                      (child2, s4) \<Rightarrow>
                        (if fitness (heap s4 ! child1) > fitness (heap s4 ! child2)
                         then child1 else child2, s4))))"

text \<open>
  \<open>Math.random() > 0.5 ? operators : digits\<close>, then a random character of that set.
\<close>

definition randomSymbol :: "rng \<Rightarrow> GeneticAlgorithm \<Rightarrow> char \<times> GeneticAlgorithm" where
  "randomSymbol rs s =
     (case Math_random rs s of
        (r, s1) \<Rightarrow> randomChar rs (if r > 1 / 2 then operators else digits) s1)"

text \<open>
  The three branches of \<open>mutate\<close>, on the array of characters. An assignment
  \<open>chromosome[index] = c\<close> beyond the end of a JavaScript array extends it (this happens
  only for the empty chromosome, where \<open>index\<close> is 0); \<open>splice(index, 0, c)\<close> inserts
  before position \<open>index\<close>; \<open>splice(index, 1)\<close> removes position \<open>index\<close>.
\<close>

definition mutateReplace :: "rng \<Rightarrow> string \<Rightarrow> GeneticAlgorithm \<Rightarrow> string \<times> GeneticAlgorithm" where
  "mutateReplace rs chrom s =
     (case randomIndex rs (int (length chrom)) s of
        (index, s1) \<Rightarrow>
          (case randomSymbol rs s1 of
             (c, s2) \<Rightarrow>
               (if index < length chrom then chrom[index := c] else chrom @ [c], s2)))"

definition mutateInsert :: "rng \<Rightarrow> string \<Rightarrow> GeneticAlgorithm \<Rightarrow> string \<times> GeneticAlgorithm" where
  "mutateInsert rs chrom s =
     (case randomIndex rs (int (length chrom)) s of
        (index, s1) \<Rightarrow>
          (case randomSymbol rs s1 of
             (c, s2) \<Rightarrow> (take index chrom @ [c] @ drop index chrom, s2)))"

definition mutateDelete :: "rng \<Rightarrow> string \<Rightarrow> GeneticAlgorithm \<Rightarrow> string \<times> GeneticAlgorithm" where
  "mutateDelete rs chrom s =
     (case randomIndex rs (int (length chrom)) s of
        (index, s1) \<Rightarrow> (take index chrom @ drop (Suc index) chrom, s1))"

definition mutate :: "parser \<Rightarrow> rng \<Rightarrow> ref \<Rightarrow> GeneticAlgorithm \<Rightarrow> GeneticAlgorithm" where
  "mutate P rs agent s =
     (let chrom = chromosome (heap s ! agent)
      in case Math_random rs s of
        (mutationType, s1) \<Rightarrow>
          (case (if mutationType < 33 / 100 then mutateReplace rs chrom s1
                 else if mutationType < 66 / 100 then mutateInsert rs chrom s1
                 else if length chrom > 3 then mutateDelete rs chrom s1
                 else (chrom, s1)) of
             (newChromosome, s2) \<Rightarrow>
               let sol = solutionOf P newChromosome
               in s2\<lparr>heap := (heap s2)[agent :=
                      (heap s2 ! agent)\<lparr>chromosome := newChromosome,
                        equation := newChromosome, solution := sol,
                        fitness := calculateFitness (config s2) sol\<rparr>]\<rparr>))"

section \<open>The evolution loop\<close>

definition makeOffspring ::
    "parser \<Rightarrow> rng \<Rightarrow> GeneticAlgorithm \<Rightarrow> error + (ref \<times> GeneticAlgorithm)" where
  "makeOffspring P rs s =
     (case tournamentSelection rs s of
        Inl e \<Rightarrow> Inl e
      | Inr (parent1, s1) \<Rightarrow>
          (case tournamentSelection rs s1 of
             Inl e \<Rightarrow> Inl e
           | Inr (parent2, s2) \<Rightarrow>
               (case Math_random rs s2 of
                  (r, s3) \<Rightarrow>
                    (case (if r < crossoverRate (config s3)
                           then crossover P rs parent1 parent2 s3
                           else cloneAgent parent1 s3) of
                       (offspring, s4) \<Rightarrow>
                         (case Math_random rs s4 of
                            (r', s5) \<Rightarrow>
                              Inr (offspring,
                                   if r' < mutationRate (config s5)
                                   then mutate P rs offspring s5 else s5))))))"

text \<open>
  Selection, crossover, mutation and cloning leave the configuration, the population
  array, the generation counter and the history as they are (\<open>frame\<close>): they allocate
  agents and draw random numbers only. The termination of the two loops rests on this.
\<close>

definition frame :: "GeneticAlgorithm \<Rightarrow> GeneticAlgorithm \<Rightarrow> bool" where
  "frame s s' =
     (config s' = config s \<and> population s' = population s \<and> generation s' = generation s
      \<and> bestFitnessHistory s' = bestFitnessHistory s)"

lemma frame_refl [simp]: "frame s s"
  by (simp add: frame_def)

lemma frame_trans: "frame s s1 \<Longrightarrow> frame s1 s2 \<Longrightarrow> frame s s2"
  by (simp add: frame_def)

lemma frame_Math_random: "Math_random rs s = (r, s') \<Longrightarrow> frame s s'"
  by (auto simp: Math_random_def frame_def)

lemma frame_randomIndex: "randomIndex rs n s = (i, s') \<Longrightarrow> frame s s'"
  by (auto simp: randomIndex_def split: prod.splits dest: frame_Math_random)

lemma frame_randomChar: "randomChar rs cs s = (c, s') \<Longrightarrow> frame s s'"
  by (auto simp: randomChar_def split: prod.splits dest: frame_randomIndex)

lemma frame_randomSymbol: "randomSymbol rs s = (c, s') \<Longrightarrow> frame s s'"
  by (auto simp: randomSymbol_def split: prod.splits
      dest!: frame_Math_random frame_randomChar intro: frame_trans)

lemma frame_alloc: "alloc a s = (r, s') \<Longrightarrow> frame s s'"
  by (auto simp: alloc_def frame_def)

lemma frame_createAgentFromChromosome:
  "createAgentFromChromosome P c s = (r, s') \<Longrightarrow> frame s s'"
  by (auto simp: createAgentFromChromosome_def Let_def dest: frame_alloc)

lemma frame_cloneAgent: "cloneAgent p s = (r, s') \<Longrightarrow> frame s s'"
  by (auto simp: cloneAgent_def Let_def dest: frame_alloc)

lemma frame_tournamentLoop: "tournamentLoop rs n t s = (t', s') \<Longrightarrow> frame s s'"
proof (induction n arbitrary: t s)
  case 0
  then show ?case by simp
next
  case (Suc n)
  then show ?case
    by (auto split: prod.splits dest!: frame_randomIndex intro: frame_trans
        simp: frame_def)
qed

lemma frame_tournamentSelection: "tournamentSelection rs s = Inr (p, s') \<Longrightarrow> frame s s'"
  by (auto simp: tournamentSelection_def split: if_splits prod.splits list.splits
      dest: frame_tournamentLoop)

lemma frame_crossover: "crossover P rs p1 p2 s = (c, s') \<Longrightarrow> frame s s'"
  unfolding crossover_def Let_def
  by (auto split: prod.splits
      dest!: frame_randomIndex frame_createAgentFromChromosome simp: frame_def)

lemma frame_mutateReplace: "mutateReplace rs c s = (c', s') \<Longrightarrow> frame s s'"
  by (auto simp: mutateReplace_def split: prod.splits
      dest!: frame_randomIndex frame_randomSymbol simp: frame_def)

lemma frame_mutateInsert: "mutateInsert rs c s = (c', s') \<Longrightarrow> frame s s'"
  by (auto simp: mutateInsert_def split: prod.splits
      dest!: frame_randomIndex frame_randomSymbol simp: frame_def)

lemma frame_mutateDelete: "mutateDelete rs c s = (c', s') \<Longrightarrow> frame s s'"
  by (auto simp: mutateDelete_def split: prod.splits
      dest!: frame_randomIndex simp: frame_def)

lemma frame_mutate: "frame s (mutate P rs a s)"
  unfolding mutate_def Let_def
  by (auto split: prod.splits if_splits
      dest!: frame_Math_random frame_mutateReplace frame_mutateInsert frame_mutateDelete
      simp: frame_def)

lemma frame_makeOffspring: "makeOffspring P rs s = Inr (c, s') \<Longrightarrow> frame s s'"
  unfolding makeOffspring_def
  using frame_mutate
  by (auto split: sum.splits prod.splits if_splits
      dest!: frame_tournamentSelection frame_Math_random frame_crossover frame_cloneAgent
      simp: frame_def)

function offspringLoop ::
    "parser \<Rightarrow> rng \<Rightarrow> ref list \<Rightarrow> GeneticAlgorithm \<Rightarrow> error + (ref list \<times> GeneticAlgorithm)" where
  "offspringLoop P rs newPopulation s =
     (if int (length newPopulation) < populationSize (config s)
      then (case makeOffspring P rs s of
              Inl e \<Rightarrow> Inl e
            | Inr (offspring, s1) \<Rightarrow> offspringLoop P rs (newPopulation @ [offspring]) s1)
      else Inr (newPopulation, s))"
  by pat_completeness auto
termination
proof (relation "measure (\<lambda>(P, rs, newPopulation, s).
    nat (populationSize (config s) - int (length newPopulation)))", goal_cases)
  case 1
  show ?case by simp
next
  case (2 P rs newPopulation s x2 offspring s1)
  then have "frame s s1"
    using frame_makeOffspring by metis
  with 2 show ?case by (simp add: frame_def)
qed


declare offspringLoop.simps [simp del]

text \<open>
  One pass of the body of the \<open>for\<close> loop after the convergence check: the elite, the
  offspring, the replacement of the population and its evaluation. (\<open>logProgress\<close> only
  prints.)
\<close>

definition nextGeneration :: "parser \<Rightarrow> rng \<Rightarrow> GeneticAlgorithm \<Rightarrow> error + GeneticAlgorithm" where
  "nextGeneration P rs s =
     (case selectElite s of
        (elite, s1) \<Rightarrow>
          (case offspringLoop P rs elite s1 of
             Inl e \<Rightarrow> Inl e
           | Inr (newPopulation, s2) \<Rightarrow>
               evaluateFitness P (s2\<lparr>population := newPopulation\<rparr>)))"

lemma frame_cloneAll: "cloneAll ps s = (as, s') \<Longrightarrow> frame s s'"
proof (induction ps arbitrary: s as)
  case Nil
  then show ?case by simp
next
  case (Cons p ps)
  then show ?case
    by (auto split: prod.splits dest!: frame_cloneAgent intro: frame_trans)
qed

lemma frame_offspringLoop: "offspringLoop P rs np s = Inr (np', s') \<Longrightarrow> frame s s'"
proof (induction P rs np s rule: offspringLoop.induct)
  case (1 P rs np s)
  show ?case
  proof (cases "int (length np) < populationSize (config s)")
    case False
    with 1(2) show ?thesis by (simp add: offspringLoop.simps)
  next
    case True
    with 1(2) obtain c s1 where mk: "makeOffspring P rs s = Inr (c, s1)"
      and rest: "offspringLoop P rs (np @ [c]) s1 = Inr (np', s')"
      by (auto simp: offspringLoop.simps [of P rs np s] split: sum.splits)
    from 1(1) [OF True mk refl rest] frame_makeOffspring [OF mk]
    show ?thesis by (rule frame_trans [rotated])
  qed
qed

lemma nextGeneration_config_generation:
  assumes "nextGeneration P rs s = Inr s'"
  shows "config s' = config s \<and> generation s' = generation s"
proof -
  obtain elite s1 where el: "selectElite s = (elite, s1)" by (cases "selectElite s")
  with assms obtain np s2 where ol: "offspringLoop P rs elite s1 = Inr (np, s2)"
    and ev: "evaluateFitness P (s2\<lparr>population := np\<rparr>) = Inr s'"
    by (auto simp: nextGeneration_def split: sum.splits)
  have "frame s s1" using el frame_cloneAll by (simp add: selectElite_def)
  moreover have "frame s1 s2" using ol by (rule frame_offspringLoop)
  moreover have "config s' = config s2 \<and> generation s' = generation s2"
    using ev by (auto simp: evaluateFitness_def Let_def split: list.splits)
  ultimately show ?thesis by (simp add: frame_def)
qed

function evolveLoop ::
    "parser \<Rightarrow> rng \<Rightarrow> GeneticAlgorithm \<Rightarrow> error + (ref option \<times> GeneticAlgorithm)" where
  "evolveLoop P rs s =
     (if generation s < maxGenerations (config s)
      then (let best = getBestAgent s
            in if (case best of None \<Rightarrow> False | Some b \<Rightarrow> fitness (heap s ! b) \<ge> 99 / 100)
               then Inr (best, s)
               else (case nextGeneration P rs s of
                       Inl e \<Rightarrow> Inl e
                     | Inr s1 \<Rightarrow> evolveLoop P rs (s1\<lparr>generation := generation s1 + 1\<rparr>)))
      else Inr (getBestAgent s, s))"
  by pat_completeness auto
termination
  by (relation "measure (\<lambda>(P, rs, s). nat (maxGenerations (config s) - generation s))")
    (auto dest: nextGeneration_config_generation)

declare evolveLoop.simps [simp del]

definition evolve ::
    "parser \<Rightarrow> rng \<Rightarrow> GeneticAlgorithm \<Rightarrow> error + (ref option \<times> GeneticAlgorithm)" where
  "evolve P rs s =
     (case evaluateFitness P (initializePopulation P rs s) of
        Inl e \<Rightarrow> Inl e
      | Inr s1 \<Rightarrow> evolveLoop P rs (s1\<lparr>generation := 0\<rparr>))"

section \<open>The fitness function in IEEE binary64 arithmetic\<close>

text \<open>
  The run above is modelled over the real numbers. The fitness function itself is
  modelled a second time the way JavaScript computes it, in IEEE 754 binary64 with
  rounding to nearest, ties to even. A \<open>number\<close> is a finite double, an infinity or
  NaN (the two zeros are identified: \<open>error === 0\<close> holds of both, and no divisor here
  is zero).
\<close>

datatype number = Fin real | PosInf | NegInf | NaN

text \<open>
  \<open>round64 x\<close> is the multiple of the spacing \<open>quantum x\<close> of the doubles around \<open>x\<close>
  that is nearest to \<open>x\<close>, the even multiple at a tie: \<open>expo x\<close> is the binary exponent
  of \<open>x\<close>, at least the exponent -1022 of the smallest normal number, and a double has
  53 significant bits. \<open>overflow\<close> is \<open>2^1024\<close>: a result whose rounding reaches it
  becomes an infinity (\<open>fl\<close>). \<open>largest\<close> is the largest finite double and \<open>smallest\<close> the
  smallest positive one. \<open>is_double x\<close>: the real number \<open>x\<close> is a finite double.
\<close>

definition expo :: "real \<Rightarrow> int" where
  "expo x = max \<lfloor>log 2 \<bar>x\<bar>\<rfloor> (- 1022)"

definition quantum :: "real \<Rightarrow> real" where
  "quantum x = 2 powr real_of_int (expo x - 52)"

definition rne :: "real \<Rightarrow> int" where
  "rne y =
     (let f = \<lfloor>y\<rfloor>; d = y - real_of_int f
      in if d < 1 / 2 then f
         else if 1 / 2 < d then f + 1
         else if even f then f else f + 1)"

definition round64 :: "real \<Rightarrow> real" where
  "round64 x = (if x = 0 then 0 else real_of_int (rne (x / quantum x)) * quantum x)"

definition overflow :: real where
  "overflow = 2 powr 1024"

definition largest :: real where
  "largest = 2 powr 1024 - 2 powr 971"

definition smallest :: real where
  "smallest = 2 powr (- 1074)"

definition fl :: "real \<Rightarrow> number" where
  "fl x =
     (if overflow \<le> round64 x then PosInf
      else if round64 x \<le> - overflow then NegInf
      else Fin (round64 x))"

definition is_double :: "real \<Rightarrow> bool" where
  "is_double x = (round64 x = x \<and> \<bar>x\<bar> < overflow)"

text \<open>
  The operators \<open>-\<close>, \<open>+\<close>, \<open>/\<close> and \<open>Math.abs\<close> on numbers: the exact result, rounded.
\<close>

fun num_neg :: "number \<Rightarrow> number" where
  "num_neg (Fin x) = Fin (- x)"
| "num_neg PosInf = NegInf"
| "num_neg NegInf = PosInf"
| "num_neg NaN = NaN"

fun num_add :: "number \<Rightarrow> number \<Rightarrow> number" where
  "num_add (Fin x) (Fin y) = fl (x + y)"
| "num_add NaN b = NaN"
| "num_add a NaN = NaN"
| "num_add PosInf NegInf = NaN"
| "num_add NegInf PosInf = NaN"
| "num_add PosInf b = PosInf"
| "num_add NegInf b = NegInf"
| "num_add (Fin x) b = b"

definition num_sub :: "number \<Rightarrow> number \<Rightarrow> number" where
  "num_sub a b = num_add a (num_neg b)"

fun num_abs :: "number \<Rightarrow> number" where
  "num_abs (Fin x) = Fin \<bar>x\<bar>"
| "num_abs PosInf = PosInf"
| "num_abs NegInf = PosInf"
| "num_abs NaN = NaN"

fun num_div :: "number \<Rightarrow> number \<Rightarrow> number" where
  "num_div (Fin x) (Fin y) =
     (if y = 0 then (if x = 0 then NaN else if 0 < x then PosInf else NegInf)
      else fl (x / y))"
| "num_div NaN b = NaN"
| "num_div a NaN = NaN"
| "num_div (Fin x) b = Fin 0"
| "num_div PosInf (Fin y) = (if 0 \<le> y then PosInf else NegInf)"
| "num_div NegInf (Fin y) = (if 0 \<le> y then NegInf else PosInf)"
| "num_div a b = NaN"

text \<open>
  \<open>calculateFitness\<close> as the code computes it, with the target as an argument.
  \<open>fitnessValue e\<close> is its value as a function of the computed absolute error \<open>e\<close>.
\<close>

definition calculateFitness64 :: "number \<Rightarrow> number \<Rightarrow> number" where
  "calculateFitness64 tgt sol =
     (let err = num_abs (num_sub sol tgt)
      in if err = Fin 0 then Fin 1 else num_div (Fin 1) (num_add (Fin 1) err))"

definition fitnessValue :: "real \<Rightarrow> real" where
  "fitnessValue e =
     (if e = 0 then 1 else if overflow \<le> e then 0 else round64 (1 / round64 (1 + e)))"

section \<open>Notions used in the statements\<close>

text \<open>
  \<open>pick r n\<close> is \<open>Math.floor(r * n)\<close>; \<open>scored P cfg c\<close> is the agent that
  \<open>createAgentFromChromosome\<close> builds for the chromosome \<open>c\<close>; \<open>editChromosome\<close> is the
  chromosome that the branches of \<open>mutate\<close> produce; \<open>agentOf\<close> and \<open>stateOf\<close> build
  concrete agents and states.
\<close>

definition pick :: "real \<Rightarrow> nat \<Rightarrow> nat" where
  "pick r n = nat \<lfloor>r * real n\<rfloor>"

definition scored :: "parser \<Rightarrow> Config \<Rightarrow> string \<Rightarrow> Agent" where
  "scored P cfg c =
     \<lparr> chromosome = c, fitness = calculateFitness cfg (solutionOf P c),
       solution = solutionOf P c, equation = c \<rparr>"

definition agentOf :: "string \<Rightarrow> real \<Rightarrow> real \<Rightarrow> Agent" where
  "agentOf c sol fit = \<lparr> chromosome = c, fitness = fit, solution = sol, equation = c \<rparr>"

definition stateOf :: "Config \<Rightarrow> Agent list \<Rightarrow> GeneticAlgorithm" where
  "stateOf cfg agents =
     \<lparr> config = cfg, heap = agents, population = [0..<length agents], generation = 0,
       bestFitnessHistory = [], cursor = 0 \<rparr>"

definition editChromosome :: "rng \<Rightarrow> string \<Rightarrow> GeneticAlgorithm \<Rightarrow> string" where
  "editChromosome rs chrom s =
     (let s1 = s\<lparr>cursor := Suc (cursor s)\<rparr>
      in if rs (cursor s) < 33 / 100 then fst (mutateReplace rs chrom s1)
         else if rs (cursor s) < 66 / 100 then fst (mutateInsert rs chrom s1)
         else if length chrom > 3 then fst (mutateDelete rs chrom s1)
         else chrom)"

text \<open>
  A random source given by its first numbers, and one number for every later call.
\<close>

definition draws :: "real list \<Rightarrow> real \<Rightarrow> rng" where
  "draws xs d k = (if k < length xs then xs ! k else d)"

text \<open>
  \<open>wellShaped eq expectingOperator\<close>: the invariant of the loop of
  \<open>generateRandomEquation\<close>. The equation consists of digits and operators, has no two
  operators in a row, starts with a digit, and \<open>expectingOperator\<close> tells whether its
  last character is a digit.
\<close>

definition wellShaped :: "string \<Rightarrow> bool \<Rightarrow> bool" where
  "wellShaped eq expectingOperator =
     (set eq \<subseteq> set digits \<union> set operators
      \<and> \<not> consecutiveOperators eq
      \<and> (eq = [] \<longrightarrow> \<not> expectingOperator)
      \<and> (eq \<noteq> [] \<longrightarrow> hd eq \<in> set digits \<and> (expectingOperator \<longleftrightarrow> last eq \<in> set digits)))"

text \<open>
  \<open>heap_ext s s'\<close>: the store of \<open>s'\<close> has all cells of \<open>s\<close>, unchanged. An agent is
  \<open>fresh\<close> when its solution and fitness are the ones computed from its chromosome. A
  state is \<open>ordered\<close> when its population is sorted by descending fitness, and
  \<open>evaluated\<close> when moreover every member of the population is an allocated, fresh
  agent: the state that an evaluation pass leaves.
\<close>

definition heap_ext :: "GeneticAlgorithm \<Rightarrow> GeneticAlgorithm \<Rightarrow> bool" where
  "heap_ext s s' =
     (length (heap s) \<le> length (heap s') \<and> (\<forall>p < length (heap s). heap s' ! p = heap s ! p))"

definition fresh :: "parser \<Rightarrow> Config \<Rightarrow> Agent \<Rightarrow> bool" where
  "fresh P cfg a =
     (solution a = solutionOf P (chromosome a)
      \<and> fitness a = calculateFitness cfg (solutionOf P (chromosome a)))"

definition ordered :: "GeneticAlgorithm \<Rightarrow> bool" where
  "ordered s =
     sorted_wrt (\<lambda>p q. fitness (heap s ! p) \<ge> fitness (heap s ! q)) (population s)"

definition evaluated :: "parser \<Rightarrow> GeneticAlgorithm \<Rightarrow> bool" where
  "evaluated P s =
     ((\<forall>p \<in> set (population s). p < length (heap s) \<and> fresh P (config s) (heap s ! p))
      \<and> ordered s)"

text \<open>
  A small configuration, parser and evaluated state, and the state that one generation
  makes of it when every random number is 0.5.
\<close>

definition smallConfig :: Config where
  "smallConfig = DEFAULT_CONFIG\<lparr>populationSize := 2, elitismCount := 1, tournamentSize := 1\<rparr>"

definition smallParser :: parser where
  "smallParser = table_parser [(''6*7'', 42), (''1+1'', 2), (''1+7'', 8), (''6*1'', 6)]"

definition smallState :: GeneticAlgorithm where
  "smallState = stateOf smallConfig [agentOf ''6*7'' 42 1, agentOf ''1+1'' 2 (1 / 41)]"

definition smallNext :: GeneticAlgorithm where
  "smallNext =
     smallState\<lparr>heap := heap smallState
         @ [agentOf ''6*7'' 42 1, agentOf ''1+1'' 2 (1 / 41), agentOf ''1+1'' 2 (1 / 41)],
       population := [2, 4], bestFitnessHistory := [1], cursor := 6\<rparr>"

text \<open>
  \<open>converged s\<close> is the test \<open>best && best.fitness >= 0.99\<close> of the loop of \<open>evolve\<close>.
  \<open>loop_head P rs s0 s\<close>: a run of \<open>evolve\<close> from \<open>s0\<close> reaches the head of its loop in
  state \<open>s\<close>, either after seeding and the first evaluation pass or after one more
  generation from a state where the loop goes on.
\<close>

definition converged :: "GeneticAlgorithm \<Rightarrow> bool" where
  "converged s =
     (case getBestAgent s of None \<Rightarrow> False | Some b \<Rightarrow> fitness (heap s ! b) \<ge> 99 / 100)"

inductive loop_head :: "parser \<Rightarrow> rng \<Rightarrow> GeneticAlgorithm \<Rightarrow> GeneticAlgorithm \<Rightarrow> bool"
  for P :: parser and rs :: rng and s0 :: GeneticAlgorithm where
  seeded:
    "evaluateFitness P (initializePopulation P rs s0) = Inr s1 \<Longrightarrow>
     loop_head P rs s0 (s1\<lparr>generation := 0\<rparr>)"
| advanced:
    "loop_head P rs s0 s \<Longrightarrow> generation s < maxGenerations (config s) \<Longrightarrow>
     \<not> converged s \<Longrightarrow> nextGeneration P rs s = Inr s1 \<Longrightarrow>
     loop_head P rs s0 (s1\<lparr>generation := generation s1 + 1\<rparr>)"

text \<open>
  Concrete runs with every random number 0.5 and chromosomes of length 4: a population
  of two with one generation, the same with \<open>maxGenerations = 0\<close>, and a configuration
  that breaks the invariants of the data model.
\<close>

definition tinyConfig :: PartialConfig where
  "tinyConfig =
     \<lparr> populationSize_opt = Some 2, target_opt = None, maxGenerations_opt = Some 1,
       mutationRate_opt = None, crossoverRate_opt = None, elitismCount_opt = Some 1,
       tournamentSize_opt = Some 1, maxEquationLength_opt = Some 4 \<rparr>"

definition tinyParser :: parser where
  "tinyParser = table_parser [(''5*55'', 275)]"

definition brokenConfig :: PartialConfig where
  "brokenConfig =
     \<lparr> populationSize_opt = Some 2, target_opt = None, maxGenerations_opt = Some 1,
       mutationRate_opt = Some (- 1), crossoverRate_opt = Some (3 / 2), elitismCount_opt = None,
       tournamentSize_opt = None, maxEquationLength_opt = Some 4 \<rparr>"

definition tinyStart :: GeneticAlgorithm where
  "tinyStart = new_GeneticAlgorithm tinyConfig"

definition tinySeeded :: GeneticAlgorithm where
  "tinySeeded =
     tinyStart\<lparr>heap := [agentOf ''5*55'' 275 (1 / 234), agentOf ''5*55'' 275 (1 / 234)],
       population := [0, 1], bestFitnessHistory := [1 / 234], cursor := 12\<rparr>"


definition zeroStart :: GeneticAlgorithm where
  "zeroStart = new_GeneticAlgorithm (tinyConfig\<lparr>maxGenerations_opt := Some 0\<rparr>)"

definition zeroSeeded :: GeneticAlgorithm where
  "zeroSeeded =
     zeroStart\<lparr>heap := [agentOf ''5*55'' 275 (1 / 234), agentOf ''5*55'' 275 (1 / 234)],
       population := [0, 1], bestFitnessHistory := [1 / 234], cursor := 12\<rparr>"

definition brokenFinal :: GeneticAlgorithm where
  "brokenFinal =
     (new_GeneticAlgorithm brokenConfig)\<lparr>heap := replicate 4 (agentOf ''5*55'' 275 (1 / 234)),
       population := [2, 3], generation := 1, bestFitnessHistory := [1 / 234, 1 / 234],
       cursor := 12\<rparr>"

text \<open>
  A run in which the agents differ in fitness, so that both evaluation passes reorder
  the population: target 66, a population of two seeded as \<open>1+11\<close> (fitness \<open>1/55\<close>) and
  \<open>6*07\<close> (fitness \<open>1/25\<close>), one elite clone and one crossover child \<open>6*11\<close> (fitness 1).
  \<open>mixedSown\<close> is the state after seeding, \<open>mixedSeeded\<close> after the first evaluation
  pass, \<open>mixedFinal\<close> the state in which \<open>evolve\<close> returns. \<open>staleState\<close> holds two
  agents whose recorded solution and fitness are not the ones of their chromosomes, and
  \<open>staleScored\<close> is what an evaluation pass makes of it.
\<close>

definition mixedConfig :: PartialConfig where
  "mixedConfig =
     \<lparr> populationSize_opt = Some 2, target_opt = Some 66, maxGenerations_opt = Some 1,
       mutationRate_opt = None, crossoverRate_opt = None, elitismCount_opt = Some 1,
       tournamentSize_opt = Some 1, maxEquationLength_opt = Some 4 \<rparr>"

definition mixedParser :: parser where
  "mixedParser = table_parser [(''1+11'', 12), (''6*07'', 42), (''6*11'', 66), (''1+07'', 8)]"

definition mixedDraws :: rng where
  "mixedDraws =
     draws [1 / 2, 3 / 20, 1 / 2, 1 / 10, 3 / 20, 3 / 20,
            1 / 2, 13 / 20, 1 / 2, 3 / 5, 1 / 20, 3 / 4,
            1 / 10, 3 / 5] (1 / 2)"

definition mixedStart :: GeneticAlgorithm where
  "mixedStart = new_GeneticAlgorithm mixedConfig"

definition mixedSown :: GeneticAlgorithm where
  "mixedSown =
     mixedStart\<lparr>heap := [agentOf ''1+11'' 12 (1 / 55), agentOf ''6*07'' 42 (1 / 25)],
       population := [0, 1], cursor := 12\<rparr>"

definition mixedSeeded :: GeneticAlgorithm where
  "mixedSeeded = mixedSown\<lparr>population := [1, 0], bestFitnessHistory := [1 / 25]\<rparr>"

definition mixedFinal :: GeneticAlgorithm where
  "mixedFinal =
     mixedSeeded\<lparr>heap := heap mixedSeeded
         @ [agentOf ''6*07'' 42 (1 / 25), agentOf ''6*11'' 66 1, agentOf ''1+07'' 8 (1 / 59)],
       population := [3, 2], generation := 1, bestFitnessHistory := [1 / 25, 1],
       cursor := 18\<rparr>"

definition staleState :: GeneticAlgorithm where
  "staleState = stateOf (config mixedStart) [agentOf ''1+11'' 0 1, agentOf ''6*07'' 0 0]"

definition staleScored :: GeneticAlgorithm where
  "staleScored =
     staleState\<lparr>heap := [agentOf ''1+11'' 12 (1 / 55), agentOf ''6*07'' 42 (1 / 25)],
       population := [1, 0], bestFitnessHistory := [1 / 25]\<rparr>"

section \<open>The evaluator and the fitness function\<close>

lemma cleanExpression_filter:
  "cleanExpression expr = filter (\<lambda>c. c \<in> set ''0123456789+-*/().'') expr"
proof -
  have no_space: "\<And>c. c \<in> set ''0123456789+-*/().'' \<Longrightarrow> \<not> isSpace c"
    by (auto simp: isSpace_def)
  have two: "filter (\<lambda>c. \<not> isSpace c) (filter keptChar expr)
      = filter (\<lambda>c. c \<in> set ''0123456789+-*/().'') expr"
    unfolding filter_filter keptChar_def
    by (rule filter_cong) (use no_space in auto)
  have trim_id: "trim xs = xs" if "\<forall>c \<in> set xs. \<not> isSpace c" for xs
  proof -
    have a: "dropWhile isSpace xs = xs"
      using that by (cases xs) auto
    have b: "dropWhile isSpace (rev xs) = rev xs"
      using that by (cases "rev xs") (auto simp: rev_eq_Cons_iff)
    show ?thesis by (simp add: trim_def a b)
  qed
  show ?thesis
    unfolding cleanExpression_def two
    by (rule trim_id) (use no_space in auto)
qed

lemma consecutiveOperators_filter:
  assumes "consecutiveOperators cs" and "\<And>c. c \<in> set ''+-*/'' \<Longrightarrow> Q c"
  shows "consecutiveOperators (filter Q cs)"
  using assms(1)
proof (induction cs rule: consecutiveOperators.induct)
  case (1 a b cs)
  show ?case
  proof (cases "a \<in> set ''+-*/'' \<and> b \<in> set ''+-*/''")
    case True
    then have "Q a" "Q b" using assms(2) by blast+
    with True show ?thesis by simp
  next
    case False
    with 1 have ih: "consecutiveOperators (filter Q (b # cs))" by auto
    show ?thesis
    proof (cases "Q a")
      case False
      with ih show ?thesis by simp
    next
      case qa: True
      show ?thesis
      proof (cases "Q b")
        case True
        with ih qa show ?thesis by simp
      next
        case qb: False
        with ih have "consecutiveOperators (filter Q cs)" by simp
        then obtain x y zs where "filter Q cs = x # y # zs"
          by (cases "filter Q cs" rule: consecutiveOperators.cases) auto
        with ih qa qb show ?thesis by simp
      qed
    qed
  qed
qed simp_all

lemma evaluate_consecutiveOperators:
  "consecutiveOperators c \<Longrightarrow> evaluate P c = None"
proof -
  assume "consecutiveOperators c"
  then have "consecutiveOperators (cleanExpression c)"
    unfolding cleanExpression_filter
    by (rule consecutiveOperators_filter) auto
  then have "\<not> isValidExpression (cleanExpression c)"
    by (simp add: isValidExpression_def split: option.splits)
  then show ?thesis
    by (simp add: evaluate_def Let_def)
qed

lemma calculateFitness_formula: "calculateFitness cfg s = 1 / (1 + \<bar>s - target cfg\<bar>)"
  by (simp add: calculateFitness_def Let_def)

section \<open>Rounding to binary64\<close>

lemma rne_cases: "rne y = \<lfloor>y\<rfloor> \<or> rne y = \<lfloor>y\<rfloor> + 1"
  by (simp add: rne_def Let_def)

lemma rne_of_int [simp]: "rne (real_of_int n) = n"
  by (simp add: rne_def Let_def)

lemma rne_lower: "real_of_int m \<le> y \<Longrightarrow> m \<le> rne y"
proof -
  assume "real_of_int m \<le> y"
  then have "m \<le> \<lfloor>y\<rfloor>" by (simp add: le_floor_iff)
  with rne_cases [of y] show ?thesis by auto
qed

lemma rne_upper: "y \<le> real_of_int n \<Longrightarrow> rne y \<le> n"
proof (cases "y = real_of_int n")
  case True
  then show ?thesis by simp
next
  case False
  assume "y \<le> real_of_int n"
  with False have "y < real_of_int n" by simp
  then have "\<lfloor>y\<rfloor> < n" by (simp add: floor_less_iff)
  with rne_cases [of y] show ?thesis by auto
qed

lemma rne_mono: "y \<le> z \<Longrightarrow> rne y \<le> rne z"
proof -
  assume yz: "y \<le> z"
  then have fl: "\<lfloor>y\<rfloor> \<le> \<lfloor>z\<rfloor>" by (rule floor_mono)
  show ?thesis
  proof (cases "\<lfloor>y\<rfloor> = \<lfloor>z\<rfloor>")
    case True
    with yz have "y - real_of_int \<lfloor>y\<rfloor> \<le> z - real_of_int \<lfloor>z\<rfloor>" by simp
    with True show ?thesis by (auto simp: rne_def Let_def)
  next
    case False
    with fl have "\<lfloor>y\<rfloor> + 1 \<le> \<lfloor>z\<rfloor>" by simp
    moreover have "rne y \<le> \<lfloor>y\<rfloor> + 1" using rne_cases [of y] by auto
    moreover have "\<lfloor>z\<rfloor> \<le> rne z" using rne_cases [of z] by auto
    ultimately show ?thesis by linarith
  qed
qed

lemma rne_minus: "rne (- y) = - rne y"
proof (cases "y \<in> \<int>")
  case True
  then obtain n where "y = real_of_int n" by (auto elim: Ints_cases)
  then have "- y = real_of_int (- n)" by simp
  then show ?thesis using \<open>y = real_of_int n\<close> by (metis rne_of_int)
next
  case False
  then have ne: "y \<noteq> real_of_int \<lfloor>y\<rfloor>" by (metis Ints_of_int)
  have lo: "real_of_int \<lfloor>y\<rfloor> < y"
    using ne of_int_floor_le [of y] by linarith
  have hi: "y < real_of_int \<lfloor>y\<rfloor> + 1" by linarith
  have fl: "\<lfloor>- y\<rfloor> = - \<lfloor>y\<rfloor> - 1"
  proof (rule floor_unique)
    show "real_of_int (- \<lfloor>y\<rfloor> - 1) \<le> - y" using hi by linarith
    show "- y < real_of_int (- \<lfloor>y\<rfloor> - 1) + 1" using lo by linarith
  qed
  show ?thesis
    unfolding rne_def Let_def fl
    by (auto simp: algebra_simps)
qed


lemma quantum_pos [simp]: "0 < quantum x"
  by (simp add: quantum_def)

lemma expo_minus [simp]: "expo (- x) = expo x"
  by (simp add: expo_def)

lemma quantum_minus [simp]: "quantum (- x) = quantum x"
  by (simp add: quantum_def)

lemma expo_mono: "0 < x \<Longrightarrow> x \<le> y \<Longrightarrow> expo x \<le> expo y"
proof -
  assume "0 < x" "x \<le> y"
  then have "log 2 \<bar>x\<bar> \<le> log 2 \<bar>y\<bar>" by simp
  then have "\<lfloor>log 2 \<bar>x\<bar>\<rfloor> \<le> \<lfloor>log 2 \<bar>y\<bar>\<rfloor>" by (rule floor_mono)
  then show ?thesis by (simp add: expo_def)
qed

lemma expo_upper: "x \<noteq> 0 \<Longrightarrow> \<bar>x\<bar> < 2 powr real_of_int (expo x + 1)"
proof -
  assume "x \<noteq> 0"
  then have pos: "0 < \<bar>x\<bar>" by simp
  have "log 2 \<bar>x\<bar> < real_of_int (\<lfloor>log 2 \<bar>x\<bar>\<rfloor> + 1)" by linarith
  also have "\<dots> \<le> real_of_int (expo x + 1)" by (simp add: expo_def)
  finally have "log 2 \<bar>x\<bar> < real_of_int (expo x + 1)" .
  then show ?thesis using pos by (simp add: log_less_iff)
qed

lemma expo_lower:
  "x \<noteq> 0 \<Longrightarrow> - 1022 \<le> \<lfloor>log 2 \<bar>x\<bar>\<rfloor> \<Longrightarrow> 2 powr real_of_int (expo x) \<le> \<bar>x\<bar>"
proof -
  assume "x \<noteq> 0" and n: "- 1022 \<le> \<lfloor>log 2 \<bar>x\<bar>\<rfloor>"
  then have pos: "0 < \<bar>x\<bar>" by simp
  from n have "expo x = \<lfloor>log 2 \<bar>x\<bar>\<rfloor>" by (simp add: expo_def)
  then have "real_of_int (expo x) \<le> log 2 \<bar>x\<bar>" by simp
  then show ?thesis using pos by (simp add: le_log_iff)
qed

lemma expo_eqI:
  assumes "- 1022 \<le> k" and "2 powr real_of_int k \<le> \<bar>x\<bar>" and "\<bar>x\<bar> < 2 powr real_of_int (k + 1)"
  shows "expo x = k"
proof -
  have pos: "0 < \<bar>x\<bar>" using assms(2) by (smt (verit) powr_gt_zero)
  have "real_of_int k \<le> log 2 \<bar>x\<bar>" using assms(2) pos by (simp add: le_log_iff)
  moreover have "log 2 \<bar>x\<bar> < real_of_int k + 1" using assms(3) pos by (simp add: log_less_iff)
  ultimately have "\<lfloor>log 2 \<bar>x\<bar>\<rfloor> = k" by (intro floor_unique) simp_all
  with assms(1) show ?thesis by (simp add: expo_def)
qed

lemma expo_subnormal:
  assumes "x \<noteq> 0" and "\<bar>x\<bar> < 2 powr (- 1022)"
  shows "expo x = - 1022"
proof -
  have pos: "0 < \<bar>x\<bar>" using assms(1) by simp
  have "log 2 \<bar>x\<bar> < - 1022" using assms(2) pos by (simp add: log_less_iff)
  then have "\<lfloor>log 2 \<bar>x\<bar>\<rfloor> \<le> - 1022" by (simp add: floor_le_iff)
  then show ?thesis by (simp add: expo_def)
qed

lemma round64_0 [simp]: "round64 0 = 0"
  by (simp add: round64_def)

lemma round64_minus: "round64 (- x) = - round64 x"
  by (simp add: round64_def rne_minus)

lemma round64_lower:
  assumes "real_of_int m * quantum x \<le> x"
  shows "real_of_int m * quantum x \<le> round64 x"
proof (cases "x = 0")
  case True
  with assms show ?thesis by simp
next
  case False
  from assms have "real_of_int m \<le> x / quantum x" by (simp add: le_divide_eq)
  then have "m \<le> rne (x / quantum x)" by (rule rne_lower)
  then have "real_of_int m * quantum x \<le> real_of_int (rne (x / quantum x)) * quantum x"
    by (simp add: mult_right_mono)
  with False show ?thesis by (simp add: round64_def)
qed

lemma round64_upper:
  assumes "x \<le> real_of_int n * quantum x"
  shows "round64 x \<le> real_of_int n * quantum x"
proof (cases "x = 0")
  case True
  with assms show ?thesis by simp
next
  case False
  from assms have "x / quantum x \<le> real_of_int n" by (simp add: divide_le_eq)
  then have "rne (x / quantum x) \<le> n" by (rule rne_upper)
  then have "real_of_int (rne (x / quantum x)) * quantum x \<le> real_of_int n * quantum x"
    by (simp add: mult_right_mono)
  with False show ?thesis by (simp add: round64_def)
qed

lemma round64_grid:
  assumes "x = real_of_int n * quantum x"
  shows "round64 x = x"
  using round64_lower [where m = n and x = x] round64_upper [where n = n and x = x] assms
  by simp

lemma round64_nonneg: "0 \<le> x \<Longrightarrow> 0 \<le> round64 x"
  using round64_lower [of 0 x] by simp

lemma pow2_quantum: "2 powr real_of_int (expo x + j) = 2 powr real_of_int (52 + j) * quantum x"
  by (simp add: quantum_def powr_add [symmetric] algebra_simps)

lemma round64_binade_upper:
  assumes "0 < x"
  shows "round64 x \<le> 2 powr real_of_int (expo x + 1)"
proof -
  have q: "2 powr real_of_int (expo x + 1) = real_of_int (2 ^ 53) * quantum x"
    using pow2_quantum [of x 1] by (simp add: powr_realpow [symmetric])
  have "x \<le> 2 powr real_of_int (expo x + 1)"
    using expo_upper [of x] assms by simp
  then show ?thesis unfolding q by (rule round64_upper)
qed

lemma round64_binade_lower:
  assumes "0 < x" and "- 1022 \<le> \<lfloor>log 2 \<bar>x\<bar>\<rfloor>"
  shows "2 powr real_of_int (expo x) \<le> round64 x"
proof -
  have q: "2 powr real_of_int (expo x) = real_of_int (2 ^ 52) * quantum x"
    using pow2_quantum [of x 0] by (simp add: powr_realpow [symmetric])
  have "2 powr real_of_int (expo x) \<le> x"
    using expo_lower [of x] assms by simp
  then show ?thesis unfolding q by (rule round64_lower)
qed

lemma round64_mono_pos:
  assumes "0 < x" and "x \<le> y"
  shows "round64 x \<le> round64 y"
proof (cases "expo x = expo y")
  case True
  then have q: "quantum y = quantum x" by (simp add: quantum_def)
  have "x / quantum x \<le> y / quantum x"
    using assms(2) by (rule divide_right_mono) (simp add: less_imp_le)
  then have "rne (x / quantum x) \<le> rne (y / quantum x)" by (rule rne_mono)
  then have "real_of_int (rne (x / quantum x)) * quantum x
      \<le> real_of_int (rne (y / quantum x)) * quantum x"
    by (simp add: mult_right_mono)
  with assms q show ?thesis by (simp add: round64_def)
next
  case False
  with expo_mono [OF assms] have lt: "expo x + 1 \<le> expo y" by simp
  have ypos: "0 < y" using assms by simp
  have "- 1022 \<le> expo x" by (simp add: expo_def)
  with lt have "expo y \<noteq> - 1022" by simp
  then have normal: "- 1022 \<le> \<lfloor>log 2 \<bar>y\<bar>\<rfloor>" by (auto simp: expo_def max_def split: if_splits)
  have "round64 x \<le> 2 powr real_of_int (expo x + 1)"
    using assms(1) by (rule round64_binade_upper)
  also have "\<dots> \<le> 2 powr real_of_int (expo y)" using lt by simp
  also have "\<dots> \<le> round64 y" using ypos normal by (rule round64_binade_lower)
  finally show ?thesis .
qed

lemma round64_mono: "x \<le> y \<Longrightarrow> round64 x \<le> round64 y"
proof -
  assume xy: "x \<le> y"
  consider "0 < x" | "x \<le> 0" "0 \<le> y" | "y < 0" by linarith
  then show ?thesis
  proof cases
    case 1
    then show ?thesis using xy by (rule round64_mono_pos)
  next
    case 2
    have "round64 x \<le> 0" using round64_nonneg [of "- x"] 2(1) by (simp add: round64_minus)
    moreover have "0 \<le> round64 y" using 2(2) by (rule round64_nonneg)
    ultimately show ?thesis by simp
  next
    case 3
    then have "0 < - y" "- y \<le> - x" using xy by simp_all
    then have "round64 (- y) \<le> round64 (- x)" by (rule round64_mono_pos)
    then show ?thesis by (simp add: round64_minus)
  qed
qed

lemma round64_abs: "round64 \<bar>x\<bar> = \<bar>round64 x\<bar>"
proof (cases "0 \<le> x")
  case True
  then show ?thesis using round64_nonneg [of x] by simp
next
  case False
  then have "0 \<le> round64 (- x)" by (intro round64_nonneg) simp
  with False show ?thesis by (simp add: round64_minus abs_if)
qed


lemma powr_int_nat: "0 \<le> j \<Longrightarrow> 2 powr real_of_int j = real_of_int (2 ^ nat j)"
  by (simp add: powr_realpow [symmetric])

lemma round64_pow2:
  assumes "- 1074 \<le> k"
  shows "round64 (2 powr real_of_int k) = 2 powr real_of_int k"
proof (cases "- 1022 \<le> k")
  case True
  have e: "expo (2 powr real_of_int k) = k"
    using True by (intro expo_eqI) simp_all
  have "2 powr real_of_int k = real_of_int (2 ^ 52) * quantum (2 powr real_of_int k)"
    using pow2_quantum [of "2 powr real_of_int k" 0] by (simp add: e)
  then show ?thesis by (rule round64_grid)
next
  case False
  then have "\<bar>2 powr real_of_int k\<bar> < 2 powr (- 1022)" by simp
  then have e: "expo (2 powr real_of_int k) = - 1022"
    by (intro expo_subnormal) simp_all
  have "2 powr real_of_int k = 2 powr real_of_int (k + 1074) * 2 powr (- 1074)"
    by (simp add: powr_add [symmetric])
  also have "2 powr real_of_int (k + 1074) = real_of_int (2 ^ nat (k + 1074))"
    using assms by (intro powr_int_nat) simp
  finally have "2 powr real_of_int k
      = real_of_int (2 ^ nat (k + 1074)) * quantum (2 powr real_of_int k)"
    unfolding quantum_def e by simp
  then show ?thesis by (rule round64_grid)
qed

lemma round64_1 [simp]: "round64 1 = 1"
  using round64_pow2 [of 0] by simp

lemma round64_smallest: "round64 smallest = smallest"
  using round64_pow2 [of "- 1074"] by (simp add: smallest_def)

lemma round64_overflow: "round64 overflow = overflow"
  using round64_pow2 [of 1024] by (simp add: overflow_def)

lemma smallest_pos: "0 < smallest"
  by (simp add: smallest_def)

lemma rne_floor: "real_of_int m \<le> y \<Longrightarrow> y < real_of_int m + 1 / 2 \<Longrightarrow> rne y = m"
proof -
  assume a: "real_of_int m \<le> y" "y < real_of_int m + 1 / 2"
  then have "\<lfloor>y\<rfloor> = m" by (intro floor_unique) simp_all
  with a show ?thesis by (simp add: rne_def Let_def)
qed

lemma round64_round_down:
  assumes "x \<noteq> 0" and "real_of_int m * quantum x \<le> x"
    and "x < (real_of_int m + 1 / 2) * quantum x"
  shows "round64 x = real_of_int m * quantum x"
proof -
  have "real_of_int m \<le> x / quantum x" using assms(2) by (simp add: le_divide_eq)
  moreover have "x / quantum x < real_of_int m + 1 / 2" using assms(3) by (simp add: divide_less_eq)
  ultimately have "rne (x / quantum x) = m" by (rule rne_floor)
  with assms(1) show ?thesis by (simp add: round64_def)
qed

lemma largest_bounds: "2 powr 1023 \<le> largest" "largest < overflow" "1 \<le> largest"
proof -
  have a: "(2::real) powr 1024 = 2 * 2 powr 1023"
    using powr_add [of "2::real" 1 1023] by simp
  have b: "(2::real) powr 971 \<le> 2 powr 1023" by (intro powr_mono) simp_all
  show "2 powr 1023 \<le> largest" using a b by (simp add: largest_def del: powr_numeral)
  show "largest < overflow" by (simp add: largest_def overflow_def del: powr_numeral)
  have "(1::real) \<le> 2 powr 1023" using powr_mono [of 0 1023 "2::real"] by simp
  then show "1 \<le> largest" using a b by (simp add: largest_def del: powr_numeral)
qed

lemma round64_largest: "round64 (1 + largest) = largest"
proof -
  let ?x = "1 + largest"
  have q971: "(2::real) powr 1024 = 2 powr 53 * 2 powr 971" "(2::real) powr 1023 = 2 powr 52 * 2 powr 971"
    by (simp_all add: powr_add [symmetric] del: powr_numeral)
  have one: "(1::real) < 1 / 2 * 2 powr 971"
  proof -
    have "(2::real) powr 2 \<le> 2 powr 971" by (intro powr_mono) simp_all
    then show ?thesis by simp
  qed
  have lo: "2 powr real_of_int 1023 \<le> \<bar>?x\<bar>" using largest_bounds by simp
  have hi: "\<bar>?x\<bar> < 2 powr real_of_int (1023 + 1)"
    using one largest_bounds(3) q971
    by (simp add: largest_def del: powr_numeral)
  have e: "expo ?x = 1023" using lo hi by (intro expo_eqI) simp_all
  have q: "quantum ?x = 2 powr 971" by (simp add: quantum_def e)
  have "largest = (2 powr 53 - 1) * 2 powr 971"
    unfolding largest_def q971 by (simp add: algebra_simps del: powr_numeral)
  also have "(2::real) powr 53 - 1 = real_of_int (2 ^ 53 - 1)" by simp
  finally have grid: "largest = real_of_int (2 ^ 53 - 1) * quantum ?x"
    unfolding q .
  have "round64 ?x = real_of_int (2 ^ 53 - 1) * quantum ?x"
  proof (rule round64_round_down)
    show "?x \<noteq> 0" using largest_bounds(3) by simp
    show "real_of_int (2 ^ 53 - 1) * quantum ?x \<le> ?x" using grid by simp
    show "?x < (real_of_int (2 ^ 53 - 1) + 1 / 2) * quantum ?x"
      using one grid unfolding q by (simp add: algebra_simps del: powr_numeral)
  qed
  with grid show ?thesis by simp
qed


lemma round64_below_overflow:
  assumes "round64 z < overflow"
  shows "round64 z \<le> largest"
proof (cases "0 < z")
  case False
  then have "round64 z \<le> 0" using round64_nonneg [of "- z"] by (simp add: round64_minus)
  with largest_bounds(3) show ?thesis by simp
next
  case True
  consider "1024 \<le> expo z" | "expo z \<le> 1022" | "expo z = 1023" by linarith
  then show ?thesis
  proof cases
    case 1
    then have "expo z \<noteq> - 1022" by simp
    then have normal: "- 1022 \<le> \<lfloor>log 2 \<bar>z\<bar>\<rfloor>"
      by (auto simp: expo_def max_def split: if_splits)
    have "overflow \<le> 2 powr real_of_int (expo z)"
      unfolding overflow_def using 1 by (intro powr_mono) simp_all
    also have "\<dots> \<le> round64 z" using True normal by (rule round64_binade_lower)
    finally show ?thesis using assms by simp
  next
    case 2
    have "round64 z \<le> 2 powr real_of_int (expo z + 1)"
      using True by (rule round64_binade_upper)
    also have "\<dots> \<le> 2 powr 1023" using 2 by (intro powr_mono) simp_all
    finally show ?thesis using largest_bounds(1) by simp
  next
    case 3
    define n where "n = rne (z / quantum z)"
    have q: "quantum z = 2 powr 971" by (simp add: quantum_def 3)
    have r: "round64 z = real_of_int n * 2 powr 971"
      using True by (simp add: round64_def n_def q)
    have "(2::real) powr 1024 = 2 powr 53 * 2 powr 971"
      by (simp add: powr_add [symmetric] del: powr_numeral)
    then have o: "overflow = real_of_int (2 ^ 53) * 2 powr 971"
      by (simp add: overflow_def del: powr_numeral)
    from assms have "real_of_int n * 2 powr 971 < real_of_int (2 ^ 53) * 2 powr 971"
      unfolding r o .
    then have "real_of_int n < real_of_int (2 ^ 53)" by (simp del: of_int_power of_int_numeral)
    then have "n \<le> 2 ^ 53 - 1" by simp
    then have "real_of_int n \<le> real_of_int (2 ^ 53 - 1)" by (simp only: of_int_le_iff)
    then have "real_of_int n * 2 powr 971 \<le> real_of_int (2 ^ 53 - 1) * 2 powr 971"
      by (rule mult_right_mono) simp
    also have "\<dots> = largest"
      unfolding largest_def o [unfolded overflow_def] by (simp add: algebra_simps del: powr_numeral)
    finally show ?thesis by (simp add: r)
  qed
qed

lemma double_grid:
  assumes "is_double x"
  shows "\<exists>n. x = real_of_int n * smallest"
proof (cases "x = 0")
  case True
  then have "x = real_of_int 0 * smallest" by simp
  then show ?thesis by blast
next
  case False
  have e: "0 \<le> expo x - 52 + 1074" by (simp add: expo_def)
  have "quantum x = 2 powr real_of_int (expo x - 52 + 1074) * smallest"
    by (simp add: quantum_def smallest_def powr_add [symmetric])
  also have "2 powr real_of_int (expo x - 52 + 1074) = real_of_int (2 ^ nat (expo x - 52 + 1074))"
    using e by (rule powr_int_nat)
  finally have q: "quantum x = real_of_int (2 ^ nat (expo x - 52 + 1074)) * smallest" .
  from assms False have "x = real_of_int (rne (x / quantum x)) * quantum x"
    by (simp add: is_double_def round64_def)
  then have "x = real_of_int (rne (x / quantum x) * 2 ^ nat (expo x - 52 + 1074)) * smallest"
    by (subst (asm) (2) q) (simp add: mult.assoc)
  then show ?thesis by blast
qed

lemma round64_distinct:
  assumes "is_double s" and "is_double t" and "s \<noteq> t"
  shows "smallest \<le> round64 \<bar>s - t\<bar>"
proof -
  from double_grid [OF assms(1)] double_grid [OF assms(2)] obtain n m where
    s: "s = real_of_int n * smallest" and t: "t = real_of_int m * smallest"
    by blast
  with assms(3) have "n \<noteq> m" by auto
  then have "1 \<le> \<bar>n - m\<bar>" by simp
  then have "(1::real) \<le> real_of_int \<bar>n - m\<bar>" by (simp only: of_int_1_le_iff)
  then have "1 * smallest \<le> real_of_int \<bar>n - m\<bar> * smallest"
    by (rule mult_right_mono) (simp add: smallest_pos less_imp_le)
  also have "\<dots> = \<bar>s - t\<bar>"
    using smallest_pos by (simp add: s t abs_mult left_diff_distrib [symmetric])
  finally have "smallest \<le> \<bar>s - t\<bar>" by simp
  then have "round64 smallest \<le> round64 \<bar>s - t\<bar>" by (rule round64_mono)
  then show ?thesis by (simp add: round64_smallest)
qed


lemma overflow_pos: "0 < overflow"
  by (simp add: overflow_def del: powr_numeral)

lemma fl_finite: "\<bar>round64 x\<bar> < overflow \<Longrightarrow> fl x = Fin (round64 x)"
  by (auto simp: fl_def)

lemma abs_error:
  "num_abs (num_sub (Fin s) (Fin t))
     = (if overflow \<le> round64 \<bar>s - t\<bar> then PosInf else Fin (round64 \<bar>s - t\<bar>))"
  using overflow_pos by (auto simp: num_sub_def fl_def round64_abs)

lemma one_plus_finite:
  assumes "0 \<le> round64 z" and "round64 z < overflow"
  shows "1 \<le> round64 (1 + round64 z) \<and> round64 (1 + round64 z) \<le> largest"
proof -
  have "round64 z \<le> largest" using assms(2) by (rule round64_below_overflow)
  then have "round64 (1 + round64 z) \<le> round64 (1 + largest)" by (intro round64_mono) simp
  moreover have "round64 1 \<le> round64 (1 + round64 z)" using assms(1) by (intro round64_mono) simp
  ultimately show ?thesis by (simp add: round64_largest)
qed

lemma largest_le: "largest \<le> 2 powr 1074"
proof -
  have "largest \<le> 2 powr 1024" by (simp add: largest_def del: powr_numeral)
  also have "\<dots> \<le> 2 powr 1074" by (intro powr_mono) simp_all
  finally show ?thesis .
qed

lemma reciprocal_bounds:
  assumes "1 \<le> d" and "d \<le> largest"
  shows "smallest \<le> round64 (1 / d) \<and> round64 (1 / d) \<le> 1"
proof -
  define B where "B = (2::real) powr 1074"
  have B1: "largest \<le> B" unfolding B_def by (rule largest_le)
  have B2: "0 < B" unfolding B_def by (simp del: powr_numeral)
  have B3: "smallest = 1 / B" unfolding B_def smallest_def by (rule powr_minus_divide)
  note B = B1 B2 B3
  from assms B(1) have d: "0 < d" "d \<le> B" by linarith+
  have "1 / B \<le> 1 / d" using d by (intro divide_left_mono) simp_all
  then have "round64 smallest \<le> round64 (1 / d)" unfolding B(3) by (rule round64_mono)
  moreover have "round64 (1 / d) \<le> round64 1" using assms(1) by (intro round64_mono) simp
  ultimately show ?thesis by (simp add: round64_smallest)
qed

lemma calculateFitness64_value:
  "calculateFitness64 (Fin t) (Fin s) = Fin (fitnessValue (round64 \<bar>s - t\<bar>))"
proof -
  define e where "e = round64 \<bar>s - t\<bar>"
  have e0: "0 \<le> e" unfolding e_def by (intro round64_nonneg) simp
  show ?thesis
  proof (cases "e = 0 \<or> overflow \<le> e")
    case True
    then show ?thesis
      using overflow_pos
      by (auto simp: calculateFitness64_def abs_error fitnessValue_def e_def [symmetric] Let_def)
  next
    case False
    then have ne: "e \<noteq> 0" and fin: "e < overflow" by simp_all
    from one_plus_finite [of "\<bar>s - t\<bar>"] e0 fin
    have d: "1 \<le> round64 (1 + e)" "round64 (1 + e) \<le> largest" by (simp_all add: e_def)
    then have dfin: "\<bar>round64 (1 + e)\<bar> < overflow" using largest_bounds(2) by simp
    from reciprocal_bounds [OF d] smallest_pos overflow_pos
    have v: "\<bar>round64 (1 / round64 (1 + e))\<bar> < overflow"
    proof -
      have "(1::real) < overflow"
        unfolding overflow_def using powr_less_mono [of 0 1024 "2::real"] by simp
      with reciprocal_bounds [OF d] smallest_pos show ?thesis by simp
    qed
    have "num_add (Fin 1) (Fin e) = Fin (round64 (1 + e))"
      using dfin by (simp add: fl_finite)
    moreover have "num_div (Fin 1) (Fin (round64 (1 + e))) = Fin (round64 (1 / round64 (1 + e)))"
      using d(1) v by (simp add: fl_finite)
    ultimately show ?thesis
      using ne fin
      by (simp add: calculateFitness64_def abs_error fitnessValue_def e_def [symmetric] Let_def)
  qed
qed

lemma fitnessValue_bounds:
  assumes "e = round64 z" and "0 \<le> e"
  shows "0 \<le> fitnessValue e \<and> fitnessValue e \<le> 1 \<and> (0 < fitnessValue e \<longleftrightarrow> e < overflow)"
proof (cases "e = 0 \<or> overflow \<le> e")
  case True
  then show ?thesis using overflow_pos by (auto simp: fitnessValue_def)
next
  case False
  then have ne: "e \<noteq> 0" and fin: "e < overflow" by simp_all
  from one_plus_finite [of z] assms fin
  have d: "1 \<le> round64 (1 + e)" "round64 (1 + e) \<le> largest" by simp_all
  from reciprocal_bounds [OF d] smallest_pos ne fin show ?thesis
    by (simp add: fitnessValue_def)
qed

lemma fitnessValue_antimono:
  assumes "e = round64 z" and "e' = round64 z'" and "0 \<le> e" and "e \<le> e'"
  shows "fitnessValue e' \<le> fitnessValue e"
proof -
  have e': "0 \<le> e'" using assms(3,4) by simp
  note b = fitnessValue_bounds [OF assms(1,3)] fitnessValue_bounds [OF assms(2) e']
  consider "e = 0" | "overflow \<le> e'" | "e \<noteq> 0" "e' < overflow" by linarith
  then show ?thesis
  proof cases
    case 1
    then show ?thesis using b by (simp add: fitnessValue_def)
  next
    case 2
    then have "fitnessValue e' = 0" using overflow_pos by (auto simp: fitnessValue_def)
    with b show ?thesis by simp
  next
    case 3
    then have fin: "e < overflow" and ne': "e' \<noteq> 0" using assms(3,4) by simp_all
    from one_plus_finite [of z] assms(1,3) fin have d: "1 \<le> round64 (1 + e)" by simp
    have "round64 (1 + e) \<le> round64 (1 + e')" using assms(4) by (intro round64_mono) simp
    then have "1 / round64 (1 + e') \<le> 1 / round64 (1 + e)"
      using d by (intro divide_left_mono) simp_all
    then have "round64 (1 / round64 (1 + e')) \<le> round64 (1 / round64 (1 + e))"
      by (rule round64_mono)
    with 3 fin ne' show ?thesis by (simp add: fitnessValue_def)
  qed
qed


lemma is_double_pow2:
  assumes "- 1074 \<le> k" and "k \<le> 1023"
  shows "is_double (2 powr real_of_int k)"
proof -
  have "2 powr real_of_int k < 2 powr 1024" using assms(2) by (intro powr_less_mono) simp_all
  then show ?thesis using round64_pow2 [OF assms(1)] by (simp add: is_double_def overflow_def)
qed

text \<open>
  The fitness over the real numbers, \<open>calculateFitness\<close>, is the value the code computes
  whenever none of its three operations rounds or overflows.
\<close>

lemma calculateFitness64_exact:
  assumes "round64 \<bar>s - target cfg\<bar> = \<bar>s - target cfg\<bar>" and "\<bar>s - target cfg\<bar> < overflow"
    and "round64 (1 + \<bar>s - target cfg\<bar>) = 1 + \<bar>s - target cfg\<bar>"
    and "round64 (1 / (1 + \<bar>s - target cfg\<bar>)) = 1 / (1 + \<bar>s - target cfg\<bar>)"
  shows "calculateFitness64 (Fin (target cfg)) (Fin s) = Fin (calculateFitness cfg s)"
  using assms
  by (simp add: calculateFitness64_value fitnessValue_def calculateFitness_def Let_def)

text \<open>
  A positive error can leave the fitness at 1: \<open>1 + 2^-60\<close> rounds to 1.
\<close>

lemma fitness64_not_strict: "calculateFitness64 (Fin 0) (Fin (2 powr (- 60))) = Fin 1"
proof -
  define u where "u = (2::real) powr (- 60)"
  define q where "q = (2::real) powr (- 52)"
  have pos: "0 < u" unfolding u_def by (simp del: powr_numeral)
  have "u < 2 powr (- 53)"
    unfolding u_def by (rule powr_less_mono) simp_all
  also have "(2::real) powr (- 53) = 1 / 2 * q"
    unfolding q_def using powr_add [of "2::real" "- 1" "- 52"]
    by (simp add: powr_minus_divide del: powr_numeral)
  finally have small: "u < 1 / 2 * q" .
  have q1: "q \<le> 1"
    unfolding q_def using powr_mono [of "- 52" 0 "2::real"] by (simp del: powr_numeral)
  have q0: "0 < q" unfolding q_def by (simp del: powr_numeral)
  have e: "expo (1 + u) = 0"
  proof (rule expo_eqI)
    show "- 1022 \<le> (0::int)" by simp
    show "2 powr real_of_int 0 \<le> \<bar>1 + u\<bar>" using pos by simp
    show "\<bar>1 + u\<bar> < 2 powr real_of_int (0 + 1)" using pos small q1 by simp
  qed
  have qx: "quantum (1 + u) = q" by (simp add: quantum_def e q_def del: powr_numeral)
  have one: "real_of_int (2 ^ 52) * q = 1"
    using pow2_quantum [of "1 + u" 0] by (simp add: e qx del: powr_numeral)
  have "round64 (1 + u) = real_of_int (2 ^ 52) * quantum (1 + u)"
  proof (rule round64_round_down)
    show "1 + u \<noteq> 0" using pos by simp
    show "real_of_int (2 ^ 52) * quantum (1 + u) \<le> 1 + u"
      unfolding qx one using pos by simp
    have "(real_of_int (2 ^ 52) + 1 / 2) * q = 1 + 1 / 2 * q"
      using one by (simp only: distrib_right)
    then show "1 + u < (real_of_int (2 ^ 52) + 1 / 2) * quantum (1 + u)"
      unfolding qx using small by simp
  qed
  then have r1: "round64 (1 + u) = 1" unfolding qx one .
  have r: "round64 u = u"
    unfolding u_def using round64_pow2 [of "- 60"] by simp
  have lt: "u < overflow"
    unfolding u_def overflow_def by (rule powr_less_mono) simp_all
  have "calculateFitness64 (Fin 0) (Fin u) = Fin (fitnessValue u)"
    using pos by (simp add: calculateFitness64_value r)
  also have "fitnessValue u = 1"
    using pos lt by (simp add: fitnessValue_def r1)
  finally show ?thesis unfolding u_def .
qed

text \<open>
  Claim C1, as amended. For finite doubles \<open>s\<close> and \<open>t\<close> the fitness function returns
  exactly 1 when \<open>s = t\<close>, and otherwise the quotient \<open>1 / (1 + |s - t|)\<close> with each of
  its operations rounded to a double. The value is a finite number, at least 0 and at
  most 1; it is greater than 0 exactly when the subtraction \<open>s - t\<close> does not overflow
  to an infinity, and 0 when it does; and it is monotonically non-increasing in the
  absolute error: a solution with a larger \<open>|s - t|\<close> never has a larger fitness.
\<close>

theorem C1_fitness_binary64:
  assumes "is_double s" and "is_double t" and "is_double s'"
  shows "(s = t \<longrightarrow> calculateFitness64 (Fin t) (Fin s) = Fin 1)
    \<and> (s \<noteq> t \<longrightarrow>
          calculateFitness64 (Fin t) (Fin s)
            = num_div (Fin 1) (num_add (Fin 1) (num_abs (num_sub (Fin s) (Fin t)))))
    \<and> (\<exists>v. calculateFitness64 (Fin t) (Fin s) = Fin v \<and> 0 \<le> v \<and> v \<le> 1
          \<and> (0 < v \<longleftrightarrow> (\<exists>d. num_sub (Fin s) (Fin t) = Fin d)))
    \<and> (\<bar>s - t\<bar> \<le> \<bar>s' - t\<bar> \<longrightarrow>
          (\<exists>v v'. calculateFitness64 (Fin t) (Fin s) = Fin v
             \<and> calculateFitness64 (Fin t) (Fin s') = Fin v' \<and> v' \<le> v))"
proof -
  define e where "e = round64 \<bar>s - t\<bar>"
  define e' where "e' = round64 \<bar>s' - t\<bar>"
  have e0: "0 \<le> e" unfolding e_def by (intro round64_nonneg) simp
  have a: "s = t \<longrightarrow> calculateFitness64 (Fin t) (Fin s) = Fin 1"
    by (simp add: calculateFitness64_value fitnessValue_def)
  have b: "s \<noteq> t \<longrightarrow>
      calculateFitness64 (Fin t) (Fin s)
        = num_div (Fin 1) (num_add (Fin 1) (num_abs (num_sub (Fin s) (Fin t))))"
  proof
    assume "s \<noteq> t"
    with round64_distinct [OF assms(1,2)] smallest_pos have "e \<noteq> 0" by (simp add: e_def)
    then have "num_abs (num_sub (Fin s) (Fin t)) \<noteq> Fin 0"
      by (simp add: abs_error e_def)
    then show "calculateFitness64 (Fin t) (Fin s)
        = num_div (Fin 1) (num_add (Fin 1) (num_abs (num_sub (Fin s) (Fin t))))"
      by (simp add: calculateFitness64_def Let_def)
  qed
  have sub: "(\<exists>d. num_sub (Fin s) (Fin t) = Fin d) \<longleftrightarrow> e < overflow"
  proof -
    have "\<bar>round64 (s - t)\<bar> = e" by (simp add: e_def round64_abs)
    then show ?thesis using overflow_pos by (auto simp: num_sub_def fl_def)
  qed
  have c: "\<exists>v. calculateFitness64 (Fin t) (Fin s) = Fin v \<and> 0 \<le> v \<and> v \<le> 1
      \<and> (0 < v \<longleftrightarrow> (\<exists>d. num_sub (Fin s) (Fin t) = Fin d))"
    using fitnessValue_bounds [OF e_def e0] sub
    by (intro exI [of _ "fitnessValue e"]) (simp add: calculateFitness64_value e_def)
  have d: "\<bar>s - t\<bar> \<le> \<bar>s' - t\<bar> \<longrightarrow>
      (\<exists>v v'. calculateFitness64 (Fin t) (Fin s) = Fin v
         \<and> calculateFitness64 (Fin t) (Fin s') = Fin v' \<and> v' \<le> v)"
  proof
    assume "\<bar>s - t\<bar> \<le> \<bar>s' - t\<bar>"
    then have "e \<le> e'" unfolding e_def e'_def by (rule round64_mono)
    from fitnessValue_antimono [OF e_def e'_def e0 this]
    show "\<exists>v v'. calculateFitness64 (Fin t) (Fin s) = Fin v
        \<and> calculateFitness64 (Fin t) (Fin s') = Fin v' \<and> v' \<le> v"
      by (simp add: calculateFitness64_value e_def e'_def)
  qed
  show ?thesis by (rule conjI [OF a conjI [OF b conjI [OF c d]]])
qed

lemma fitness64_half: "calculateFitness64 (Fin 2) (Fin 1) = Fin (1 / 2)"
proof -
  have two: "round64 2 = 2" using round64_pow2 [of 1] by simp
  have half: "round64 (1 / 2) = 1 / 2" using round64_pow2 [of "- 1"] by (simp add: powr_minus_divide)
  have "(1::real) < overflow"
    unfolding overflow_def using powr_less_mono [of 0 1024 "2::real"] by simp
  then show ?thesis
    by (simp add: calculateFitness64_value fitnessValue_def two half)
qed

theorem C1_fitness_binary64_witness:
  "is_double 1 \<and> is_double 2 \<and> is_double 4 \<and> \<bar>1 - 2 :: real\<bar> \<le> \<bar>4 - 2\<bar>
   \<and> calculateFitness64 (Fin 2) (Fin 1) = Fin (1 / 2)
   \<and> (\<exists>v'. calculateFitness64 (Fin 2) (Fin 4) = Fin v' \<and> v' \<le> 1 / 2)"
proof -
  have d1: "is_double 1" using is_double_pow2 [of 0] by simp
  have d2: "is_double 2" using is_double_pow2 [of 1] by simp
  have d4: "is_double 4" using is_double_pow2 [of 2] by simp
  have le: "\<bar>1 - 2 :: real\<bar> \<le> \<bar>4 - 2\<bar>" by simp
  note th = C1_fitness_binary64 [OF d1 d2 d4]
  from th have "\<bar>1 - 2 :: real\<bar> \<le> \<bar>4 - 2\<bar> \<longrightarrow>
      (\<exists>v v'. calculateFitness64 (Fin 2) (Fin 1) = Fin v
         \<and> calculateFitness64 (Fin 2) (Fin 4) = Fin v' \<and> v' \<le> v)"
    by (elim conjE)
  with le have "\<exists>v v'. calculateFitness64 (Fin 2) (Fin 1) = Fin v
      \<and> calculateFitness64 (Fin 2) (Fin 4) = Fin v' \<and> v' \<le> v"
    by (rule rev_mp)
  then have mono: "\<exists>v'. calculateFitness64 (Fin 2) (Fin 4) = Fin v' \<and> v' \<le> 1 / 2"
    by (auto simp: fitness64_half)
  show ?thesis by (intro conjI d1 d2 d4 le fitness64_half mono)
qed

text \<open>
  The claim as stated fails: for the finite doubles \<open>s = 2^1023\<close> and \<open>t = -2^1023\<close>
  the difference \<open>s - t = 2^1024\<close> overflows to \<open>Infinity\<close>, and the fitness is
  \<open>1 / (1 + Infinity) = 0\<close>, which is not strictly greater than 0.
\<close>

theorem C1_overflow_counterexample:
  "is_double (2 powr 1023) \<and> is_double (- (2 powr 1023))
   \<and> calculateFitness64 (Fin (- (2 powr 1023))) (Fin (2 powr 1023)) = Fin 0"
proof -
  have d: "is_double (2 powr 1023)" using is_double_pow2 [of 1023] by (simp del: powr_numeral)
  then have d': "is_double (- (2 powr 1023))"
    by (simp add: is_double_def round64_minus del: powr_numeral)
  have "(2::real) powr 1023 - - (2 powr 1023) = 2 powr 1024"
    using powr_add [of "2::real" 1 1023] by (simp del: powr_numeral)
  then have "round64 \<bar>2 powr 1023 - - (2 powr 1023)\<bar> = overflow"
    using round64_overflow by (simp add: overflow_def del: powr_numeral)
  then have "calculateFitness64 (Fin (- (2 powr 1023))) (Fin (2 powr 1023)) = Fin 0"
    using overflow_pos by (simp add: calculateFitness64_value fitnessValue_def del: powr_numeral)
  with d d' show ?thesis by simp
qed

text \<open>
  Claim C7. A chromosome that the evaluator rejects makes nothing fail:
  \<open>createAgentFromChromosome\<close> returns an agent whose solution is 0 and whose fitness is
  the value \<open>1 / (1 + |0 - target|)\<close> of the fitness function, and the evaluation pass
  gives an agent of the population the same solution and fitness. Every string that
  contains two operators in a row is such a chromosome, whatever the parser would do.
\<close>

theorem C7_rejected_chromosome:
  "(evaluate P c = None \<longrightarrow>
      (case createAgentFromChromosome P c s of (r, s') \<Rightarrow>
         r < length (heap s')
         \<and> chromosome (heap s' ! r) = c
         \<and> solution (heap s' ! r) = 0
         \<and> fitness (heap s' ! r) = calculateFitness (config s) 0
         \<and> fitness (heap s' ! r) = 1 / (1 + \<bar>0 - target (config s)\<bar>)))
   \<and> (evaluate P (chromosome a) = None \<longrightarrow>
        solution (rescore P cfg a) = 0
        \<and> fitness (rescore P cfg a) = 1 / (1 + \<bar>0 - target cfg\<bar>))
   \<and> (consecutiveOperators c \<longrightarrow> evaluate P c = None)"
  by (simp add: createAgentFromChromosome_def solutionOf_def alloc_def Let_def rescore_def
      calculateFitness_formula evaluate_consecutiveOperators)

theorem C7_rejected_chromosome_witness:
  "consecutiveOperators ''5//2''
   \<and> evaluate (table_parser []) ''5//2'' = None
   \<and> solution (heap (snd (createAgentFromChromosome (table_parser []) ''5//2''
          (stateOf (DEFAULT_CONFIG\<lparr>target := 10\<rparr>) [])))
        ! fst (createAgentFromChromosome (table_parser []) ''5//2''
          (stateOf (DEFAULT_CONFIG\<lparr>target := 10\<rparr>) []))) = 0
   \<and> fitness (heap (snd (createAgentFromChromosome (table_parser []) ''5//2''
          (stateOf (DEFAULT_CONFIG\<lparr>target := 10\<rparr>) [])))
        ! fst (createAgentFromChromosome (table_parser []) ''5//2''
          (stateOf (DEFAULT_CONFIG\<lparr>target := 10\<rparr>) []))) = 1 / 11
   \<and> solution (rescore (table_parser []) (DEFAULT_CONFIG\<lparr>target := 10\<rparr>)
        (agentOf ''5//2'' 7 1)) = 0
   \<and> fitness (rescore (table_parser []) (DEFAULT_CONFIG\<lparr>target := 10\<rparr>)
        (agentOf ''5//2'' 7 1)) = 1 / 11"
proof -
  let ?P = "table_parser []"
  let ?cfg = "DEFAULT_CONFIG\<lparr>target := 10\<rparr>"
  note th = C7_rejected_chromosome [of ?P "''5//2''" "stateOf ?cfg []" "agentOf ''5//2'' 7 1" ?cfg]
  have ops: "consecutiveOperators ''5//2''" by simp
  from th have "consecutiveOperators ''5//2'' \<longrightarrow> evaluate ?P ''5//2'' = None"
    by (elim conjE)
  with ops have rej: "evaluate ?P ''5//2'' = None" by blast
  note th [THEN conjunct1, THEN mp, OF rej]
  then have created:
    "solution (heap (snd (createAgentFromChromosome ?P ''5//2'' (stateOf ?cfg [])))
        ! fst (createAgentFromChromosome ?P ''5//2'' (stateOf ?cfg []))) = 0"
    "fitness (heap (snd (createAgentFromChromosome ?P ''5//2'' (stateOf ?cfg [])))
        ! fst (createAgentFromChromosome ?P ''5//2'' (stateOf ?cfg []))) = 1 / 11"
    by (simp_all add: stateOf_def split: prod.splits)
  have "evaluate ?P (chromosome (agentOf ''5//2'' 7 1)) = None"
    using rej by (simp add: agentOf_def)
  note th [THEN conjunct2, THEN conjunct1, THEN mp, OF this]
  then have rescored: "solution (rescore ?P ?cfg (agentOf ''5//2'' 7 1)) = 0"
    "fitness (rescore ?P ?cfg (agentOf ''5//2'' 7 1)) = 1 / 11"
    by simp_all
  show ?thesis by (intro conjI ops rej created rescored)
qed

section \<open>Random choices stay in range\<close>

lemma pick_less:
  assumes "0 \<le> r" "r < 1" "0 < n"
  shows "pick r n < n"
proof -
  have "r * real n < real n" using assms by simp
  then have "\<lfloor>r * real n\<rfloor> < int n" by (simp add: floor_less_iff)
  then show ?thesis using assms by (simp add: pick_def)
qed

lemma pick_le: "0 \<le> r \<Longrightarrow> r < 1 \<Longrightarrow> pick r n \<le> n"
  by (cases "n = 0") (auto simp: pick_def dest: pick_less [of r n] less_imp_le)

lemma randomIndex_eq:
  "randomIndex rs (int n) s = (pick (rs (cursor s)) n, s\<lparr>cursor := Suc (cursor s)\<rparr>)"
  by (simp add: randomIndex_def Math_random_def pick_def)

lemma randomChar_eq:
  "randomChar rs cs s = (cs ! pick (rs (cursor s)) (length cs), s\<lparr>cursor := Suc (cursor s)\<rparr>)"
  by (simp add: randomChar_def randomIndex_eq)

lemma randomSymbol_eq:
  "randomSymbol rs s =
     ((if rs (cursor s) > 1 / 2 then operators else digits)
        ! pick (rs (Suc (cursor s))) (length (if rs (cursor s) > 1 / 2 then operators else digits)),
      s\<lparr>cursor := cursor s + 2\<rparr>)"
  by (simp add: randomSymbol_def Math_random_def randomChar_eq)

lemma pick_in_set: "valid_rng rs \<Longrightarrow> cs \<noteq> [] \<Longrightarrow> cs ! pick (rs k) (length cs) \<in> set cs"
  by (simp add: valid_rng_def pick_less)

lemma randomSymbol_in_set:
  "valid_rng rs \<Longrightarrow> fst (randomSymbol rs s) \<in> set digits \<union> set operators"
  using pick_in_set [of rs digits "Suc (cursor s)"] pick_in_set [of rs operators "Suc (cursor s)"]
  by (auto simp: randomSymbol_eq digits_def operators_def)


section \<open>Crossover\<close>

lemma createAgentFromChromosome_eq:
  "createAgentFromChromosome P c s =
     (length (heap s),
      s\<lparr>heap := heap s @ [\<lparr> chromosome = c,
          fitness = calculateFitness (config s) (solutionOf P c),
          solution = solutionOf P c, equation = c \<rparr>]\<rparr>)"
  by (simp add: createAgentFromChromosome_def alloc_def Let_def)



lemma draws_Nil [simp]: "draws [] d k = d"
  by (simp add: draws_def)

lemma valid_rng_draws:
  "0 \<le> d \<Longrightarrow> d < 1 \<Longrightarrow> \<forall>x \<in> set xs. 0 \<le> x \<and> x < 1 \<Longrightarrow> valid_rng (draws xs d)"
  by (simp add: valid_rng_def draws_def)



section \<open>Random equations\<close>

lemma consecutiveOperators_snoc:
  "consecutiveOperators (xs @ [c])
     = (consecutiveOperators xs \<or> (xs \<noteq> [] \<and> last xs \<in> set ''+-*/'' \<and> c \<in> set ''+-*/''))"
  by (induction xs rule: consecutiveOperators.induct) auto

lemma digits_not_operators: "c \<in> set digits \<Longrightarrow> c \<notin> set ''+-*/''"
  by (auto simp: digits_def)

lemma wellShaped_digit:
  assumes "wellShaped eq ex" and "c \<in> set digits"
  shows "wellShaped (eq @ [c]) True"
  using assms digits_not_operators [OF assms(2)]
  by (auto simp: wellShaped_def consecutiveOperators_snoc hd_append)

lemma wellShaped_operator:
  assumes "wellShaped eq True" and "c \<in> set operators"
  shows "wellShaped (eq @ [c]) False"
proof -
  from assms(1) have ne: "eq \<noteq> []" and d: "last eq \<in> set digits"
    by (auto simp: wellShaped_def)
  have "c \<notin> set digits" using assms(2) by (auto simp: digits_def operators_def)
  with assms ne digits_not_operators [OF d] show ?thesis
    by (auto simp: wellShaped_def consecutiveOperators_snoc hd_append)
qed

lemma equationLoop_shape:
  assumes "valid_rng rs" and "wellShaped eq ex"
    and "equationLoop rs n eq ex s = ((eq', ex'), s')"
  shows "wellShaped eq' ex' \<and> length eq' = length eq + n"
  using assms(2,3)
proof (induction n arbitrary: eq ex s)
  case 0
  then show ?case by simp
next
  case (Suc n)
  have op: "operators ! pick (rs k) (length operators) \<in> set operators" for k
    using assms(1) by (intro pick_in_set) (simp_all add: operators_def)
  have dg: "digits ! pick (rs k) (length digits) \<in> set digits" for k
    using assms(1) by (intro pick_in_set) (simp_all add: digits_def)
  show ?case
  proof (cases "ex \<and> rs (cursor s) > 3 / 10")
    case True
    let ?c = "operators ! pick (rs (Suc (cursor s))) (length operators)"
    from True Suc.prems(2)
    have rest: "equationLoop rs n (eq @ [?c]) False (s\<lparr>cursor := Suc (Suc (cursor s))\<rparr>)
        = ((eq', ex'), s')"
      by (simp add: Math_random_def randomChar_eq)
    have "wellShaped (eq @ [?c]) False"
      using True Suc.prems(1) op by (intro wellShaped_operator) simp_all
    from Suc.IH [OF this rest] show ?thesis by simp
  next
    case False
    let ?k = "if ex then Suc (cursor s) else cursor s"
    let ?c = "digits ! pick (rs ?k) (length digits)"
    from False Suc.prems(2)
    have rest: "equationLoop rs n (eq @ [?c]) True (s\<lparr>cursor := Suc ?k\<rparr>) = ((eq', ex'), s')"
      by (auto simp: Math_random_def randomChar_eq split: if_splits)
    have "wellShaped (eq @ [?c]) True"
      using Suc.prems(1) dg by (intro wellShaped_digit)
    from Suc.IH [OF this rest] show ?thesis by simp
  qed
qed

text \<open>
  What \<open>generateRandomEquation\<close> does guarantee, for \<open>maxEquationLength \<ge> 4\<close>: the
  length lies in \<open>[3, maxEquationLength]\<close>, the characters are digits and operators,
  the first is a digit and no two operators are adjacent.
\<close>

lemma generateRandomEquation_shape:
  assumes "valid_rng rs" and "4 \<le> maxEquationLength (config s)"
    and "generateRandomEquation rs s = (eq, s')"
  shows "3 \<le> length eq \<and> int (length eq) \<le> maxEquationLength (config s)
    \<and> set eq \<subseteq> set digits \<union> set operators
    \<and> hd eq \<in> set digits \<and> \<not> consecutiveOperators eq"
proof -
  define m where "m = maxEquationLength (config s) - 3"
  define r where "r = rs (cursor s)"
  define len where "len = \<lfloor>r * real_of_int m\<rfloor> + 3"
  have r: "0 \<le> r" "r < 1" using assms(1) by (simp_all add: valid_rng_def r_def)
  have m: "1 \<le> m" using assms(2) by (simp add: m_def)
  have "0 \<le> r * real_of_int m" using r m by simp
  then have lo: "3 \<le> len" by (simp add: len_def)
  have "r * real_of_int m < real_of_int m" using r m by simp
  then have "\<lfloor>r * real_of_int m\<rfloor> < m" by (simp add: floor_less_iff)
  then have hi: "len < maxEquationLength (config s)" by (simp add: len_def m_def)
  obtain eq1 ex1 s1 where
    loop: "equationLoop rs (nat len) [] False (s\<lparr>cursor := Suc (cursor s)\<rparr>) = ((eq1, ex1), s1)"
    by (metis prod.collapse)
  have w0: "wellShaped [] False" by (simp add: wellShaped_def)
  from equationLoop_shape [OF assms(1) w0 loop]
  have w1: "wellShaped eq1 ex1" and l1: "length eq1 = nat len" by simp_all
  have dg: "digits ! pick (rs k) (length digits) \<in> set digits" for k
    using assms(1) by (intro pick_in_set) (simp_all add: digits_def)
  have eq: "eq = (if ex1 then eq1 @ [digits ! pick (rs (cursor s1)) (length digits)] else eq1)"
    using assms(3) loop
    by (auto simp: generateRandomEquation_def Math_random_def Let_def randomChar_eq
        len_def r_def m_def split: if_splits)
  have w: "wellShaped eq True \<or> wellShaped eq False"
    using w1 wellShaped_digit [OF w1 dg] by (cases ex1) (auto simp: eq)
  have ne: "eq \<noteq> []" using l1 lo by (auto simp: eq)
  have len_eq: "3 \<le> length eq \<and> int (length eq) \<le> maxEquationLength (config s)"
    using l1 lo hi by (auto simp: eq)
  from w ne len_eq show ?thesis by (auto simp: wellShaped_def)
qed

text \<open>
  Claim C4 fails in the code. The comment before the last statement of
  \<open>generateRandomEquation\<close> reads "Ensure it ends with a digit", but the statement
  appends a digit when \<open>expectingOperator\<close> holds, that is when the last character
  already is a digit, and appends nothing when the last character is an operator. With
  the default configuration and the random numbers 0.1, 0, then 0.9 for ever, the loop
  runs 4 times and the result is \<open>0/9/\<close>, which ends with an operator. The other
  parts of the claim hold (lemma \<open>generateRandomEquation_shape\<close>).
\<close>

theorem C4_ends_with_operator:
  "fst (generateRandomEquation (draws [1 / 10, 0] (9 / 10))
      (new_GeneticAlgorithm \<lparr> populationSize_opt = None, target_opt = None,
         maxGenerations_opt = None, mutationRate_opt = None, crossoverRate_opt = None,
         elitismCount_opt = None, tournamentSize_opt = None, maxEquationLength_opt = None \<rparr>))
   = ''0/9/''"
  by code_simp


section \<open>Mutation\<close>

lemma mutateReplace_eq:
  "mutateReplace rs chrom s =
     (let i = pick (rs (cursor s)) (length chrom);
          c = fst (randomSymbol rs (s\<lparr>cursor := Suc (cursor s)\<rparr>))
      in (if i < length chrom then chrom[i := c] else chrom @ [c], s\<lparr>cursor := cursor s + 3\<rparr>))"
  by (simp add: mutateReplace_def randomIndex_eq randomSymbol_eq Let_def)

lemma mutateInsert_eq:
  "mutateInsert rs chrom s =
     (let i = pick (rs (cursor s)) (length chrom);
          c = fst (randomSymbol rs (s\<lparr>cursor := Suc (cursor s)\<rparr>))
      in (take i chrom @ [c] @ drop i chrom, s\<lparr>cursor := cursor s + 3\<rparr>))"
  by (simp add: mutateInsert_def randomIndex_eq randomSymbol_eq Let_def)

lemma mutateDelete_eq:
  "mutateDelete rs chrom s =
     (let i = pick (rs (cursor s)) (length chrom)
      in (take i chrom @ drop (Suc i) chrom, s\<lparr>cursor := cursor s + 1\<rparr>))"
  by (simp add: mutateDelete_def randomIndex_eq Let_def)

lemma Agent_update_all:
  "(a :: Agent)\<lparr>chromosome := c, equation := c, solution := x, fitness := f\<rparr>
     = \<lparr> chromosome = c, fitness = f, solution = x, equation = c \<rparr>"
  by (cases a) simp

lemma mutate_eq:
  "mutate P rs agent s =
     (let chrom = chromosome (heap s ! agent);
          s1 = s\<lparr>cursor := Suc (cursor s)\<rparr>;
          s2 = (if rs (cursor s) < 33 / 100 then snd (mutateReplace rs chrom s1)
                else if rs (cursor s) < 66 / 100 then snd (mutateInsert rs chrom s1)
                else if length chrom > 3 then snd (mutateDelete rs chrom s1)
                else s1)
      in s2\<lparr>heap := (heap s)[agent := scored P (config s) (editChromosome rs chrom s)]\<rparr>)"
  unfolding mutate_def Math_random_def Let_def editChromosome_def scored_def
  by (simp add: mutateReplace_eq mutateInsert_eq mutateDelete_eq Let_def Agent_update_all
      del: list_update.simps)

lemma mutate_heap:
  "heap (mutate P rs agent s) =
     (heap s)[agent := scored P (config s) (editChromosome rs (chromosome (heap s ! agent)) s)]"
  by (simp add: mutate_eq Let_def)

text \<open>
  Claim C5, as amended. A call of \<open>mutate\<close> draws a number \<open>t\<close> and applies at most one
  operation to the chromosome: for \<open>t < 0.33\<close> it replaces the character at a random
  position by a random digit or operator (on the empty chromosome the character is
  appended); for \<open>0.33 \<le> t < 0.66\<close> it inserts a random digit or operator at a random
  position; for \<open>t \<ge> 0.66\<close> it deletes the character at a random position when the
  length is greater than 3 and leaves the chromosome as it is otherwise. After the call
  the agent holds the new chromosome with the solution and the fitness computed from it
  by the evaluator and the fitness function; no other agent changes.
\<close>

theorem C5_mutate:
  assumes "valid_rng rs" and "agent < length (heap s)"
    and "old = chromosome (heap s ! agent)" and "t = rs (cursor s)"
    and "s' = mutate P rs agent s" and "new = chromosome (heap s' ! agent)"
  shows "(t < 33 / 100 \<and> old \<noteq> [] \<longrightarrow>
            (\<exists>i < length old. \<exists>c \<in> set digits \<union> set operators. new = old[i := c]))
    \<and> (t < 33 / 100 \<and> old = [] \<longrightarrow> (\<exists>c \<in> set digits \<union> set operators. new = [c]))
    \<and> (33 / 100 \<le> t \<and> t < 66 / 100 \<longrightarrow>
            (\<exists>i \<le> length old. \<exists>c \<in> set digits \<union> set operators.
                new = take i old @ [c] @ drop i old))
    \<and> (66 / 100 \<le> t \<and> length old > 3 \<longrightarrow>
            (\<exists>i < length old. new = take i old @ drop (Suc i) old))
    \<and> (66 / 100 \<le> t \<and> length old \<le> 3 \<longrightarrow> new = old)
    \<and> heap s' ! agent = scored P (config s) new
    \<and> solution (heap s' ! agent) = solutionOf P new
    \<and> fitness (heap s' ! agent) = calculateFitness (config s) (solutionOf P new)
    \<and> length (heap s') = length (heap s)
    \<and> (\<forall>p < length (heap s). p \<noteq> agent \<longrightarrow> heap s' ! p = heap s ! p)"
proof -
  let ?s1 = "s\<lparr>cursor := Suc (cursor s)\<rparr>"
  let ?i = "pick (rs (Suc (cursor s))) (length old)"
  let ?c = "fst (randomSymbol rs (?s1\<lparr>cursor := Suc (cursor ?s1)\<rparr>))"
  have r: "0 \<le> rs (Suc (cursor s))" "rs (Suc (cursor s)) < 1"
    using assms(1) by (simp_all add: valid_rng_def)
  have c: "?c \<in> set digits \<union> set operators"
    using assms(1) by (rule randomSymbol_in_set)
  have i_le: "?i \<le> length old" using r by (rule pick_le)
  have i_less: "old \<noteq> [] \<Longrightarrow> ?i < length old" using r by (simp add: pick_less)
  have cell: "heap s' ! agent = scored P (config s) (editChromosome rs old s)"
    using assms(2) by (simp add: assms(3,5) mutate_heap)
  then have new: "new = editChromosome rs old s"
    by (simp add: assms(6) scored_def)
  have replace: "t < 33 / 100 \<Longrightarrow> old \<noteq> [] \<Longrightarrow> new = old[?i := ?c]"
    using i_less by (simp add: new editChromosome_def assms(4) mutateReplace_eq Let_def)
  have replace_empty: "t < 33 / 100 \<Longrightarrow> old = [] \<Longrightarrow> new = [?c]"
    by (simp add: new editChromosome_def assms(4) mutateReplace_eq Let_def)
  have insert: "33 / 100 \<le> t \<Longrightarrow> t < 66 / 100 \<Longrightarrow> new = take ?i old @ [?c] @ drop ?i old"
    by (simp add: new editChromosome_def assms(4) mutateInsert_eq Let_def)
  have delete: "66 / 100 \<le> t \<Longrightarrow> length old > 3 \<Longrightarrow> new = take ?i old @ drop (Suc ?i) old"
    by (simp add: new editChromosome_def assms(4) mutateDelete_eq Let_def)
  have keep: "66 / 100 \<le> t \<Longrightarrow> length old \<le> 3 \<Longrightarrow> new = old"
    by (simp add: new editChromosome_def assms(4) Let_def)
  have c1: "t < 33 / 100 \<and> old \<noteq> [] \<longrightarrow>
      (\<exists>i < length old. \<exists>c \<in> set digits \<union> set operators. new = old[i := c])"
    using replace i_less c by blast
  have c2: "t < 33 / 100 \<and> old = [] \<longrightarrow> (\<exists>c \<in> set digits \<union> set operators. new = [c])"
    using replace_empty c by blast
  have c3: "33 / 100 \<le> t \<and> t < 66 / 100 \<longrightarrow>
      (\<exists>i \<le> length old. \<exists>c \<in> set digits \<union> set operators.
          new = take i old @ [c] @ drop i old)"
    using insert i_le c by blast
  have c4: "66 / 100 \<le> t \<and> length old > 3 \<longrightarrow>
      (\<exists>i < length old. new = take i old @ drop (Suc i) old)"
  proof (intro impI, elim conjE)
    assume a: "66 / 100 \<le> t" "length old > 3"
    then have "old \<noteq> []" by auto
    with delete [OF a] i_less show "\<exists>i < length old. new = take i old @ drop (Suc i) old"
      by blast
  qed
  have c5: "66 / 100 \<le> t \<and> length old \<le> 3 \<longrightarrow> new = old"
    using keep by blast
  have c6: "heap s' ! agent = scored P (config s) new"
    using cell new by simp
  have c7: "length (heap s') = length (heap s)"
    by (simp add: assms(5) mutate_heap)
  have c8: "\<forall>p < length (heap s). p \<noteq> agent \<longrightarrow> heap s' ! p = heap s ! p"
    by (simp add: assms(5) mutate_heap)
  from c6 have c9: "solution (heap s' ! agent) = solutionOf P new"
    "fitness (heap s' ! agent) = calculateFitness (config s) (solutionOf P new)"
    by (simp_all add: scored_def)
  show ?thesis
    using c1 c2 c3 c4 c5 c6 c7 c8 c9 by blast
qed


theorem C5_mutate_witness:
  "valid_rng (draws [] (9 / 10))
   \<and> 0 < length (heap (stateOf DEFAULT_CONFIG [agentOf ''12+34'' 46 (1 / 5)]))
   \<and> (66 / 100 :: real) \<le> 9 / 10 \<and> length ''12+34'' > 3
   \<and> chromosome (heap (mutate (table_parser [(''12+3'', 15)]) (draws [] (9 / 10)) 0
        (stateOf DEFAULT_CONFIG [agentOf ''12+34'' 46 (1 / 5)])) ! 0) = ''12+3''
   \<and> heap (mutate (table_parser [(''12+3'', 15)]) (draws [] (9 / 10)) 0
        (stateOf DEFAULT_CONFIG [agentOf ''12+34'' 46 (1 / 5)])) ! 0
      = agentOf ''12+3'' 15 (1 / 28)"
proof -
  let ?P = "table_parser [(''12+3'', 15)]"
  let ?S = "stateOf DEFAULT_CONFIG [agentOf ''12+34'' 46 (1 / 5)]"
  have v: "valid_rng (draws [] (9 / 10))" by (simp add: valid_rng_draws)
  have l: "0 < length (heap ?S)" by (simp add: stateOf_def)
  have new: "chromosome (heap (mutate ?P (draws [] (9 / 10)) 0 ?S) ! 0) = ''12+3''"
    by (simp add: mutate_heap editChromosome_def mutateDelete_eq pick_def scored_def
        stateOf_def agentOf_def)
  have e: "solutionOf ?P ''12+3'' = 15"
    by (simp add: solutionOf_def evaluate_def cleanExpression_filter isValidExpression_def
        table_parser_def)
  have "heap (mutate ?P (draws [] (9 / 10)) 0 ?S) ! 0 = scored ?P (config ?S) ''12+3''"
    using C5_mutate [OF v l refl refl refl refl, of ?P] by (simp add: new)
  then show ?thesis
    using v l new
    by (simp add: scored_def e agentOf_def stateOf_def calculateFitness_def DEFAULT_CONFIG_def)
qed

text \<open>
  The claim as stated fails: on the chromosome \<open>1+2\<close> of length 3 with the random
  number 0.9 the call applies none of the three operations. It leaves the chromosome as
  it is and draws one random number, whereas the replacement would give \<open>1+/\<close> and draw
  four, the insertion \<open>1+/2\<close> and four, the deletion \<open>1+\<close> and two.
\<close>

theorem C5_no_operation_counterexample:
  "chromosome (heap (mutate (table_parser [(''1+2'', 3)]) (draws [] (9 / 10)) 0
        (stateOf DEFAULT_CONFIG [agentOf ''1+2'' 3 (1 / 40)])) ! 0) = ''1+2''
   \<and> cursor (mutate (table_parser [(''1+2'', 3)]) (draws [] (9 / 10)) 0
        (stateOf DEFAULT_CONFIG [agentOf ''1+2'' 3 (1 / 40)])) = 1
   \<and> mutateReplace (draws [] (9 / 10)) ''1+2''
        (snd (Math_random (draws [] (9 / 10)) (stateOf DEFAULT_CONFIG [agentOf ''1+2'' 3 (1 / 40)])))
      = (''1+/'', stateOf DEFAULT_CONFIG [agentOf ''1+2'' 3 (1 / 40)] \<lparr>cursor := 4\<rparr>)
   \<and> mutateInsert (draws [] (9 / 10)) ''1+2''
        (snd (Math_random (draws [] (9 / 10)) (stateOf DEFAULT_CONFIG [agentOf ''1+2'' 3 (1 / 40)])))
      = (''1+/2'', stateOf DEFAULT_CONFIG [agentOf ''1+2'' 3 (1 / 40)] \<lparr>cursor := 4\<rparr>)
   \<and> mutateDelete (draws [] (9 / 10)) ''1+2''
        (snd (Math_random (draws [] (9 / 10)) (stateOf DEFAULT_CONFIG [agentOf ''1+2'' 3 (1 / 40)])))
      = (''1+'', stateOf DEFAULT_CONFIG [agentOf ''1+2'' 3 (1 / 40)] \<lparr>cursor := 2\<rparr>)"
  by (simp add: mutate_eq editChromosome_def mutateReplace_eq mutateInsert_eq mutateDelete_eq
      randomSymbol_eq Math_random_def pick_def scored_def stateOf_def agentOf_def
      operators_def digits_def Let_def)

section \<open>The store only grows\<close>

lemma heap_ext_refl [simp]: "heap_ext s s"
  by (simp add: heap_ext_def)

lemma heap_ext_trans: "heap_ext s s1 \<Longrightarrow> heap_ext s1 s2 \<Longrightarrow> heap_ext s s2"
  by (auto simp: heap_ext_def)

lemma heap_ext_heap_eq: "heap s' = heap s \<Longrightarrow> heap_ext s s'"
  by (simp add: heap_ext_def)

lemma Math_random_heap: "Math_random rs s = (r, s') \<Longrightarrow> heap s' = heap s"
  by (auto simp: Math_random_def)

lemma alloc_facts:
  "alloc a s = (r, s') \<Longrightarrow> r = length (heap s) \<and> heap s' = heap s @ [a] \<and> frame s s'
     \<and> cursor s' = cursor s"
  by (auto simp: alloc_def frame_def)

lemma Agent_copy:
  "\<lparr> chromosome = chromosome a, fitness = fitness a, solution = solution a,
      equation = equation a \<rparr> = (a :: Agent)"
  by (cases a) simp

lemma cloneAgent_eq:
  "cloneAgent p s = (length (heap s), s\<lparr>heap := heap s @ [heap s ! p]\<rparr>)"
  by (simp add: cloneAgent_def alloc_def Let_def Agent_copy)

lemma cloneAll_facts:
  assumes "cloneAll ps s = (as, s')" and "\<forall>p \<in> set ps. p < length (heap s)"
  shows "as = map (\<lambda>i. length (heap s) + i) [0..<length ps]
    \<and> heap s' = heap s @ map (\<lambda>p. heap s ! p) ps"
  using assms
proof (induction ps arbitrary: s as s')
  case Nil
  then show ?case by simp
next
  case (Cons p ps)
  let ?s1 = "s\<lparr>heap := heap s @ [heap s ! p]\<rparr>"
  obtain as1 where rest: "cloneAll ps ?s1 = (as1, s')" and as: "as = length (heap s) # as1"
    using Cons.prems(1) by (auto simp: cloneAgent_eq split: prod.splits)
  have valid: "\<forall>q \<in> set ps. q < length (heap ?s1)" using Cons.prems(2) by auto
  have same: "map (\<lambda>q. heap ?s1 ! q) ps = map (\<lambda>q. heap s ! q) ps"
    using Cons.prems(2) by (auto simp: nth_append)
  have idx: "map (\<lambda>i. length (heap s) + i) [0..<length (p # ps)]
      = length (heap s) # map (\<lambda>i. length (heap ?s1) + i) [0..<length ps]"
    by (simp add: upt_rec [of 0 "Suc (length ps)"] map_Suc_upt [symmetric] del: upt_Suc)
  from Cons.IH [OF rest valid] same as idx show ?case by simp
qed


lemma tournamentLoop_facts:
  "tournamentLoop rs n t s = (t', s') \<Longrightarrow> heap s' = heap s \<and> length t' = length t + n"
proof (induction n arbitrary: t s)
  case 0
  then show ?case by simp
next
  case (Suc n)
  then show ?case by (fastforce simp: randomIndex_def Math_random_def split: prod.splits)
qed

lemma tournamentSelection_heap: "tournamentSelection rs s = Inr (p, s') \<Longrightarrow> heap s' = heap s"
  by (auto simp: tournamentSelection_def split: if_splits prod.splits list.splits
      dest: tournamentLoop_facts)

lemma tournamentSelection_total:
  assumes "population s \<noteq> []" and "1 \<le> tournamentSize (config s)"
  shows "\<exists>p s'. tournamentSelection rs s = Inr (p, s')"
proof -
  obtain t s1 where loop: "tournamentLoop rs (nat (tournamentSize (config s))) [] s = (t, s1)"
    by (cases "tournamentLoop rs (nat (tournamentSize (config s))) [] s")
  from tournamentLoop_facts [OF loop] assms(2) have "t \<noteq> []" by auto
  with loop assms(1) show ?thesis
    by (auto simp: tournamentSelection_def split: list.splits)
qed

lemma crossover_eq:
  "crossover P rs parent1 parent2 s =
     (let A = chromosome (heap s ! parent1);
          B = chromosome (heap s ! parent2);
          p1 = pick (rs (cursor s)) (length A);
          p2 = pick (rs (Suc (cursor s))) (length B);
          child1 = scored P (config s) (take p1 A @ drop p2 B);
          child2 = scored P (config s) (take p2 B @ drop p1 A)
      in (if fitness child1 > fitness child2 then length (heap s) else Suc (length (heap s)),
          s\<lparr>cursor := Suc (Suc (cursor s)), heap := heap s @ [child1, child2]\<rparr>))"
  unfolding crossover_def Let_def scored_def
  by (simp add: randomIndex_eq createAgentFromChromosome_eq nth_append)

lemma crossover_heap:
  assumes "crossover P rs p1 p2 s = (c, s')"
  shows "heap_ext s s' \<and> length (heap s) \<le> c \<and> c < length (heap s')"
  using assms unfolding crossover_eq Let_def
  by (auto simp: heap_ext_def nth_append split: if_splits)

lemma cloneAgent_heap:
  assumes "cloneAgent p s = (c, s')"
  shows "heap_ext s s' \<and> length (heap s) \<le> c \<and> c < length (heap s')"
  using assms by (auto simp: cloneAgent_eq heap_ext_def nth_append)

lemma heap_ext_mutate:
  assumes "heap_ext s s1" and "length (heap s) \<le> a"
  shows "heap_ext s (mutate P rs a s1)"
  using assms by (simp add: heap_ext_def mutate_heap)

lemma makeOffspring_heap:
  assumes "makeOffspring P rs s = Inr (c, s')"
  shows "heap_ext s s' \<and> length (heap s) \<le> c \<and> c < length (heap s')"
proof -
  from assms obtain p1 s1 p2 s2 s4 s5 r' where
    t1: "tournamentSelection rs s = Inr (p1, s1)" and
    t2: "tournamentSelection rs s1 = Inr (p2, s2)" and
    mk: "(if rs (cursor s2) < crossoverRate (config s2)
          then crossover P rs p1 p2 (s2\<lparr>cursor := Suc (cursor s2)\<rparr>)
          else cloneAgent p1 (s2\<lparr>cursor := Suc (cursor s2)\<rparr>)) = (c, s4)" and
    m: "Math_random rs s4 = (r', s5)" and
    s': "s' = (if r' < mutationRate (config s5) then mutate P rs c s5 else s5)"
    unfolding makeOffspring_def
    by (auto simp: Math_random_def split: sum.splits prod.splits)
  have h2: "heap s2 = heap s"
    using tournamentSelection_heap [OF t1] tournamentSelection_heap [OF t2] by simp
  have c4: "heap_ext (s2\<lparr>cursor := Suc (cursor s2)\<rparr>) s4
      \<and> length (heap s2) \<le> c \<and> c < length (heap s4)"
    using mk crossover_heap [of P rs p1 p2 "s2\<lparr>cursor := Suc (cursor s2)\<rparr>" c s4]
      cloneAgent_heap [of p1 "s2\<lparr>cursor := Suc (cursor s2)\<rparr>" c s4]
    by (auto split: if_splits)
  have h5: "heap s5 = heap s4" using m by (rule Math_random_heap)
  have e5: "heap_ext s s5" using c4 h2 h5 by (simp add: heap_ext_def)
  have c5: "length (heap s) \<le> c" "c < length (heap s5)" using c4 h2 h5 by simp_all
  show ?thesis
  proof (cases "r' < mutationRate (config s5)")
    case True
    then have "s' = mutate P rs c s5" using s' by simp
    with e5 c5 show ?thesis by (simp add: heap_ext_mutate mutate_heap)
  next
    case False
    then have "s' = s5" using s' by simp
    with e5 c5 show ?thesis by simp
  qed
qed

lemma makeOffspring_total:
  assumes "population s \<noteq> []" and "1 \<le> tournamentSize (config s)"
  shows "\<exists>c s'. makeOffspring P rs s = Inr (c, s')"
proof -
  obtain p1 s1 where t1: "tournamentSelection rs s = Inr (p1, s1)"
    using tournamentSelection_total [OF assms] by blast
  have "frame s s1" using t1 by (rule frame_tournamentSelection)
  then have "population s1 \<noteq> []" "1 \<le> tournamentSize (config s1)"
    using assms by (simp_all add: frame_def)
  then obtain p2 s2 where t2: "tournamentSelection rs s1 = Inr (p2, s2)"
    using tournamentSelection_total by blast
  show ?thesis
    unfolding makeOffspring_def by (simp add: t1 t2 split: prod.splits)
qed


lemma offspringLoop_facts:
  assumes "offspringLoop P rs np s = Inr (np', s')"
  shows "\<exists>extra. np' = np @ extra
      \<and> (\<forall>c \<in> set extra. length (heap s) \<le> c \<and> c < length (heap s'))
      \<and> heap_ext s s' \<and> frame s s'
      \<and> int (length np') = max (int (length np)) (populationSize (config s))"
  using assms
proof (induction P rs np s rule: offspringLoop.induct)
  case (1 P rs np s)
  show ?case
  proof (cases "int (length np) < populationSize (config s)")
    case False
    with 1(2) show ?thesis by (simp add: offspringLoop.simps)
  next
    case True
    with 1(2) obtain c s1 where mk: "makeOffspring P rs s = Inr (c, s1)"
      and rest: "offspringLoop P rs (np @ [c]) s1 = Inr (np', s')"
      by (auto simp: offspringLoop.simps [of P rs np s] split: sum.splits)
    from 1(1) [OF True mk refl rest] obtain extra where
      ih: "np' = (np @ [c]) @ extra"
      "\<forall>d \<in> set extra. length (heap s1) \<le> d \<and> d < length (heap s')"
      "heap_ext s1 s'" "frame s1 s'"
      "int (length np') = max (int (length (np @ [c]))) (populationSize (config s1))"
      by blast
    have h: "heap_ext s s1" "length (heap s) \<le> c" "c < length (heap s1)"
      using makeOffspring_heap [OF mk] by simp_all
    have f: "frame s s1" using mk by (rule frame_makeOffspring)
    have le: "length (heap s) \<le> length (heap s1)" "length (heap s1) \<le> length (heap s')"
      using h(1) ih(3) by (simp_all add: heap_ext_def)
    have a: "np' = np @ (c # extra)" using ih(1) by simp
    have b: "\<forall>d \<in> set (c # extra). length (heap s) \<le> d \<and> d < length (heap s')"
      using ih(2) h(2,3) le by auto
    have d: "int (length np') = max (int (length np)) (populationSize (config s))"
      using ih(5) True f by (simp add: frame_def)
    from a b d heap_ext_trans [OF h(1) ih(3)] frame_trans [OF f ih(4)]
    show ?thesis by blast
  qed
qed

lemma offspringLoop_total:
  assumes "population s \<noteq> []" and "1 \<le> tournamentSize (config s)"
  shows "\<exists>np' s'. offspringLoop P rs np s = Inr (np', s')"
  using assms
proof (induction P rs np s rule: offspringLoop.induct)
  case (1 P rs np s)
  show ?case
  proof (cases "int (length np) < populationSize (config s)")
    case False
    then show ?thesis by (simp add: offspringLoop.simps)
  next
    case True
    obtain c s1 where mk: "makeOffspring P rs s = Inr (c, s1)"
      using makeOffspring_total [OF 1(2,3)] by blast
    have "frame s s1" using mk by (rule frame_makeOffspring)
    then have "population s1 \<noteq> []" "1 \<le> tournamentSize (config s1)"
      using 1(2,3) by (simp_all add: frame_def)
    from 1(1) [OF True mk refl this] mk True show ?thesis
      by (simp add: offspringLoop.simps [of P rs np s])
  qed
qed

lemma offspringLoop_full:
  "populationSize (config s) \<le> int (length np) \<Longrightarrow> offspringLoop P rs np s = Inr (np, s)"
  by (simp add: offspringLoop.simps)

section \<open>The evaluation pass\<close>

lemma rescore_chromosome [simp]: "chromosome (rescore P cfg a) = chromosome a"
  by (simp add: rescore_def Let_def)

lemma rescore_idem [simp]: "rescore P cfg (rescore P cfg a) = rescore P cfg a"
  by (simp add: rescore_def Let_def)

lemma fresh_rescore [simp]: "fresh P cfg (rescore P cfg a)"
  by (simp add: fresh_def rescore_def Let_def)

lemma rescore_fresh: "fresh P cfg a \<Longrightarrow> rescore P cfg a = a"
  by (simp add: fresh_def rescore_def Let_def)

lemma fold_rescore_length [simp]:
  "length (fold (\<lambda>p h. h[p := rescore P cfg (h ! p)]) ps h) = length h"
  by (induction ps arbitrary: h) simp_all

lemma fold_rescore_nth:
  "q < length h \<Longrightarrow>
   fold (\<lambda>p h. h[p := rescore P cfg (h ! p)]) ps h ! q
     = (if q \<in> set ps then rescore P cfg (h ! q) else h ! q)"
proof (induction ps arbitrary: h)
  case Nil
  then show ?case by simp
next
  case (Cons p ps)
  then show ?case by (cases "q = p") simp_all
qed

lemma sorted_wrt_sort_key_desc:
  "sorted_wrt (\<lambda>p q. f p \<ge> f q) (sort_key (\<lambda>p. - f p) xs)" for f :: "'a \<Rightarrow> real"
proof -
  have "sorted (map (\<lambda>p. - f p) (sort_key (\<lambda>p. - f p) xs))" by (rule sorted_sort_key)
  then show ?thesis by (simp add: sorted_wrt_map)
qed

lemma sort_key_Nil_iff [simp]: "sort_key f xs = [] \<longleftrightarrow> xs = []"
  by (metis length_sort length_0_conv)

lemma evaluateFitness_facts:
  assumes "evaluateFitness P s = Inr s'"
  shows "population s' = sort_key (\<lambda>p. - fitness (heap s' ! p)) (population s)
    \<and> heap s' = fold (\<lambda>p h. h[p := rescore P (config s) (h ! p)]) (population s) (heap s)
    \<and> population s' \<noteq> []
    \<and> bestFitnessHistory s' = bestFitnessHistory s @ [fitness (heap s' ! (population s' ! 0))]
    \<and> config s' = config s \<and> generation s' = generation s \<and> cursor s' = cursor s
    \<and> ordered s'"
proof -
  define h where "h = fold (\<lambda>p h. h[p := rescore P (config s) (h ! p)]) (population s) (heap s)"
  define sp where "sp = sort_key (\<lambda>p. - fitness (h ! p)) (population s)"
  from assms obtain best rest where sp: "sp = best # rest"
    and s': "s' = s\<lparr>heap := h, population := sp,
        bestFitnessHistory := bestFitnessHistory s @ [fitness (h ! best)]\<rparr>"
    by (auto simp: evaluateFitness_def Let_def h_def sp_def split: list.splits)
  have "ordered s'"
    unfolding ordered_def using sorted_wrt_sort_key_desc [of "\<lambda>p. fitness (h ! p)" "population s"]
    by (simp add: s' sp_def)
  then show ?thesis
    using sp by (simp add: s') (simp add: sp_def h_def)
qed

lemma evaluateFitness_total:
  "population s \<noteq> [] \<Longrightarrow> \<exists>s'. evaluateFitness P s = Inr s'"
  by (auto simp: evaluateFitness_def Let_def split: list.splits)

lemma evaluateFitness_error:
  "population s = [] \<Longrightarrow> evaluateFitness P s = Inl TypeError"
  by (simp add: evaluateFitness_def)


lemma evaluateFitness_evaluated:
  assumes "evaluateFitness P s = Inr s'" and "\<forall>p \<in> set (population s). p < length (heap s)"
  shows "evaluated P s' \<and> mset (population s') = mset (population s)
    \<and> length (heap s') = length (heap s)
    \<and> (\<forall>q < length (heap s). heap s' ! q
          = (if q \<in> set (population s) then rescore P (config s) (heap s ! q) else heap s ! q))"
proof -
  note f = evaluateFitness_facts [OF assms(1)]
  have m: "mset (population s') = mset (population s)"
    using f by (metis mset_sort)
  then have st: "set (population s') = set (population s)" by (rule mset_eq_setD)
  have len: "length (heap s') = length (heap s)" using f by simp
  have cells: "\<forall>q < length (heap s). heap s' ! q
      = (if q \<in> set (population s) then rescore P (config s) (heap s ! q) else heap s ! q)"
    using f by (simp add: fold_rescore_nth)
  have "\<forall>p \<in> set (population s'). p < length (heap s') \<and> fresh P (config s') (heap s' ! p)"
    using assms(2) st len cells f by simp
  then show ?thesis using f m len cells by (simp add: evaluated_def)
qed

section \<open>Seeding\<close>

lemma equationLoop_frame:
  "equationLoop rs n eq ex s = ((eq', ex'), s') \<Longrightarrow> frame s s' \<and> heap s' = heap s"
proof (induction n arbitrary: eq ex s)
  case 0
  then show ?case by simp
next
  case (Suc n)
  then show ?case
    by (fastforce simp: randomChar_eq Math_random_def frame_def split: if_splits prod.splits)
qed

lemma generateRandomEquation_frame:
  "generateRandomEquation rs s = (c, s') \<Longrightarrow> frame s s' \<and> heap s' = heap s"
  unfolding generateRandomEquation_def Let_def
  by (fastforce simp: randomChar_eq Math_random_def frame_def
      split: if_splits prod.splits dest!: equationLoop_frame)

lemma createRandomAgent_facts:
  assumes "createRandomAgent P rs s = (a, s')"
  shows "a = length (heap s) \<and> frame s s'
    \<and> (\<exists>c. heap s' = heap s @ [scored P (config s) c])"
proof -
  from assms obtain c s1 where g: "generateRandomEquation rs s = (c, s1)"
    and cr: "createAgentFromChromosome P c s1 = (a, s')"
    by (auto simp: createRandomAgent_def split: prod.splits)
  from generateRandomEquation_frame [OF g] cr show ?thesis
    by (auto simp: createAgentFromChromosome_eq scored_def frame_def)
qed

lemma initLoop_facts:
  "length (population (initLoop P rs n s)) = length (population s) + n
   \<and> config (initLoop P rs n s) = config s
   \<and> generation (initLoop P rs n s) = generation s
   \<and> bestFitnessHistory (initLoop P rs n s) = bestFitnessHistory s
   \<and> length (heap s) \<le> length (heap (initLoop P rs n s))
   \<and> ((\<forall>p \<in> set (population s). p < length (heap s)) \<longrightarrow>
        (\<forall>p \<in> set (population (initLoop P rs n s)). p < length (heap (initLoop P rs n s))))"
proof (induction n arbitrary: s)
  case 0
  then show ?case by simp
next
  case (Suc n)
  obtain a s1 where cr: "createRandomAgent P rs s = (a, s1)"
    by (cases "createRandomAgent P rs s")
  note f = createRandomAgent_facts [OF cr]
  let ?s2 = "s1\<lparr>population := population s1 @ [a]\<rparr>"
  have step: "initLoop P rs (Suc n) s = initLoop P rs n ?s2" by (simp add: cr)
  from f obtain c where h: "heap s1 = heap s @ [scored P (config s) c]" by blast
  have valid: "(\<forall>p \<in> set (population s). p < length (heap s)) \<Longrightarrow>
      (\<forall>p \<in> set (population ?s2). p < length (heap ?s2))"
    using f h by (auto simp: frame_def)
  show ?case
    unfolding step using Suc.IH [of ?s2] f h valid
    by (auto simp: frame_def)
qed

lemma initializePopulation_facts:
  "length (population (initializePopulation P rs s)) = nat (populationSize (config s))
   \<and> config (initializePopulation P rs s) = config s
   \<and> generation (initializePopulation P rs s) = generation s
   \<and> bestFitnessHistory (initializePopulation P rs s) = bestFitnessHistory s
   \<and> (\<forall>p \<in> set (population (initializePopulation P rs s)).
         p < length (heap (initializePopulation P rs s)))"
  unfolding initializePopulation_def
  using initLoop_facts [of P rs "nat (populationSize (config s))" "s\<lparr>population := []\<rparr>"]
  by simp


section \<open>One generation\<close>

lemma slice0_facts:
  "length (slice0 e xs) \<le> length xs \<and> set (slice0 e xs) \<subseteq> set xs
   \<and> (\<forall>i < length (slice0 e xs). slice0 e xs ! i = xs ! i)
   \<and> (\<forall>i. int i < e \<and> i < length xs \<longrightarrow> i < length (slice0 e xs))"
  by (auto simp: slice0_def dest: in_set_takeD)

lemma nextGeneration_facts:
  assumes "nextGeneration P rs s = Inr s'"
    and "\<forall>p \<in> set (population s). p < length (heap s)"
    and "k = length (slice0 (elitismCount (config s)) (population s))"
    and "n0 = length (heap s)"
  shows "mset (map (\<lambda>i. n0 + i) [0..<k]) \<subseteq># mset (population s')
      \<and> (\<forall>c \<in> set (population s'). n0 \<le> c \<and> c < length (heap s'))
      \<and> fst (selectElite s) = map (\<lambda>i. n0 + i) [0..<k]
      \<and> heap (snd (selectElite s))
           = heap s @ map (\<lambda>p. heap s ! p) (slice0 (elitismCount (config s)) (population s))
      \<and> evaluated P s'
      \<and> config s' = config s \<and> generation s' = generation s
      \<and> int (length (population s')) = max (int k) (populationSize (config s))
      \<and> (\<forall>q < n0. heap s' ! q = heap s ! q)
      \<and> (\<forall>i < k. heap s' ! (n0 + i) = rescore P (config s) (heap s ! (population s ! i)))
      \<and> bestFitnessHistory s'
           = bestFitnessHistory s @ [fitness (heap s' ! (population s' ! 0))]"
proof -
  define ps where "ps = slice0 (elitismCount (config s)) (population s)"
  define elite where "elite = map (\<lambda>i. n0 + i) [0..<k]"
  note sl = slice0_facts [of "elitismCount (config s)" "population s"]
  have ps_valid: "\<forall>p \<in> set ps. p < length (heap s)"
    using sl assms(2) by (auto simp: ps_def)
  obtain el s1 where se: "selectElite s = (el, s1)" by (cases "selectElite s")
  then have ca: "cloneAll ps s = (el, s1)" by (simp add: selectElite_def ps_def)
  from cloneAll_facts [OF ca ps_valid]
  have el: "el = elite" and h1: "heap s1 = heap s @ map (\<lambda>p. heap s ! p) ps"
    by (simp_all add: elite_def assms(3,4) ps_def)
  have f1: "frame s s1" using ca by (rule frame_cloneAll)
  from assms(1) se el obtain np s2 where ol: "offspringLoop P rs elite s1 = Inr (np, s2)"
    and ev: "evaluateFitness P (s2\<lparr>population := np\<rparr>) = Inr s'"
    by (auto simp: nextGeneration_def split: sum.splits)
  from offspringLoop_facts [OF ol] obtain extra where
    np: "np = elite @ extra" and
    ex: "\<forall>c \<in> set extra. length (heap s1) \<le> c \<and> c < length (heap s2)" and
    e12: "heap_ext s1 s2" and f12: "frame s1 s2" and
    ln: "int (length np) = max (int (length elite)) (populationSize (config s1))"
    by blast
  have l1: "length (heap s1) = n0 + k" by (simp add: h1 assms(3,4) ps_def)
  have l2: "n0 + k \<le> length (heap s2)" using e12 l1 by (simp add: heap_ext_def)
  have np_valid: "\<forall>p \<in> set (population (s2\<lparr>population := np\<rparr>)).
      p < length (heap (s2\<lparr>population := np\<rparr>))"
    using ex l2 by (auto simp: np elite_def)
  note ee = evaluateFitness_evaluated [OF ev np_valid]
  note ef = evaluateFitness_facts [OF ev]
  have cfg: "config s2 = config s" "generation s2 = generation s"
    "bestFitnessHistory s2 = bestFitnessHistory s"
    using f1 f12 by (simp_all add: frame_def)
  have old: "\<forall>q < n0. heap s' ! q = heap s ! q"
  proof (intro allI impI)
    fix q assume q: "q < n0"
    then have "q \<notin> set np" using ex l1 by (auto simp: np elite_def)
    moreover have "q < length (heap s2)" using q l2 by simp
    ultimately have "heap s' ! q = heap s2 ! q" using ee by simp
    also have "\<dots> = heap s1 ! q" using e12 q l1 by (simp add: heap_ext_def)
    also have "\<dots> = heap s ! q" using q by (simp add: h1 nth_append assms(4))
    finally show "heap s' ! q = heap s ! q" .
  qed
  have new: "\<forall>i < k. heap s' ! (n0 + i) = rescore P (config s) (heap s ! (population s ! i))"
  proof (intro allI impI)
    fix i assume i: "i < k"
    then have "n0 + i \<in> set np" by (auto simp: np elite_def)
    moreover have "n0 + i < length (heap s2)" using i l2 by simp
    ultimately have "heap s' ! (n0 + i) = rescore P (config s) (heap s2 ! (n0 + i))"
      using ee cfg by simp
    also have "heap s2 ! (n0 + i) = heap s1 ! (n0 + i)"
      using e12 i l1 by (simp add: heap_ext_def)
    also have "\<dots> = heap s ! (ps ! i)"
      using i by (simp add: h1 nth_append assms(3,4) ps_def)
    also have "ps ! i = population s ! i" using sl i by (simp add: ps_def assms(3))
    finally show "heap s' ! (n0 + i) = rescore P (config s) (heap s ! (population s ! i))" .
  qed
  have m: "mset (population s') = mset (elite @ extra)" using ee by (simp add: np)
  have a: "mset elite \<subseteq># mset (population s')" by (simp add: m)
  have b: "\<forall>c \<in> set (population s'). n0 \<le> c \<and> c < length (heap s')"
  proof
    fix c assume "c \<in> set (population s')"
    then have "c \<in> set elite \<union> set extra" using mset_eq_setD [OF m] by simp
    then show "n0 \<le> c \<and> c < length (heap s')"
      using ex l1 l2 ee by (auto simp: elite_def)
  qed
  have c: "int (length (population s')) = max (int k) (populationSize (config s))"
    using ln f1 mset_eq_length [OF m] by (simp add: np elite_def frame_def)
  have e: "bestFitnessHistory s' = bestFitnessHistory s @ [fitness (heap s' ! (population s' ! 0))]"
    using ef cfg by simp
  have g: "fst (selectElite s) = elite"
    "heap (snd (selectElite s)) = heap s @ map (\<lambda>p. heap s ! p) ps"
    using se el h1 by simp_all
  have ev': "evaluated P s'" using ee by simp
  have cg: "config s' = config s" "generation s' = generation s" using ef cfg by simp_all
  show ?thesis
    unfolding elite_def [symmetric] ps_def [symmetric]
    by (intro conjI a b g ev' cg c old new e)
qed

lemma nextGeneration_total:
  assumes "population s \<noteq> []" and "1 \<le> populationSize (config s)"
    and "1 \<le> tournamentSize (config s)
         \<or> populationSize (config s)
              \<le> int (length (slice0 (elitismCount (config s)) (population s)))"
    and "\<forall>p \<in> set (population s). p < length (heap s)"
  shows "\<exists>s'. nextGeneration P rs s = Inr s'"
proof -
  define ps where "ps = slice0 (elitismCount (config s)) (population s)"
  have ps_valid: "\<forall>p \<in> set ps. p < length (heap s)"
    using slice0_facts [of "elitismCount (config s)" "population s"] assms(4)
    by (auto simp: ps_def)
  obtain el s1 where se: "selectElite s = (el, s1)" by (cases "selectElite s")
  then have ca: "cloneAll ps s = (el, s1)" by (simp add: selectElite_def ps_def)
  have len: "length el = length ps" using cloneAll_facts [OF ca ps_valid] by simp
  have f1: "frame s s1" using ca by (rule frame_cloneAll)
  have "\<exists>np s2. offspringLoop P rs el s1 = Inr (np, s2)"
  proof (cases "1 \<le> tournamentSize (config s)")
    case True
    with f1 assms(1) show ?thesis by (intro offspringLoop_total) (simp_all add: frame_def)
  next
    case False
    with assms(3) have "populationSize (config s1) \<le> int (length el)"
      using f1 len by (simp add: ps_def frame_def)
    then show ?thesis by (simp add: offspringLoop_full)
  qed
  then obtain np s2 where ol: "offspringLoop P rs el s1 = Inr (np, s2)" by blast
  from offspringLoop_facts [OF ol] f1 assms(2) have "np \<noteq> []"
    by (auto simp: frame_def)
  then obtain s' where "evaluateFitness P (s2\<lparr>population := np\<rparr>) = Inr s'"
    using evaluateFitness_total [of "s2\<lparr>population := np\<rparr>" P] by auto
  then show ?thesis by (simp add: nextGeneration_def se ol)
qed

lemma ordered_best_first:
  assumes "ordered s" and "p \<in> set (population s)"
  shows "fitness (heap s ! p) \<le> fitness (heap s ! (population s ! 0))"
proof (cases "population s")
  case Nil
  with assms(2) show ?thesis by simp
next
  case (Cons b rest)
  with assms show ?thesis by (auto simp: ordered_def)
qed

lemma rank_bound:
  fixes f :: "'a \<Rightarrow> real"
  assumes "sorted_wrt (\<lambda>p q. f p \<ge> f q) ys" and "i < length (filter (\<lambda>x. v \<le> f x) ys)"
  shows "i < length ys \<and> v \<le> f (ys ! i)"
proof -
  have i: "i < length ys"
    using assms(2) length_filter_le [of "\<lambda>x. v \<le> f x" ys] by linarith
  have "v \<le> f (ys ! i)"
  proof (rule ccontr)
    assume "\<not> v \<le> f (ys ! i)"
    then have low: "f (ys ! i) < v" by simp
    have "\<forall>x \<in> set (drop i ys). \<not> v \<le> f x"
    proof
      fix x assume "x \<in> set (drop i ys)"
      then obtain j where j: "j < length (drop i ys)" "x = drop i ys ! j"
        by (auto simp: in_set_conv_nth)
      then have "f (ys ! (i + j)) \<le> f (ys ! i)"
        using assms(1) i by (cases "j = 0") (auto simp: sorted_wrt_iff_nth_less)
      with j low show "\<not> v \<le> f x" by simp
    qed
    then have "filter (\<lambda>x. v \<le> f x) (drop i ys) = []" by (simp add: filter_empty_conv)
    then have "filter (\<lambda>x. v \<le> f x) ys = filter (\<lambda>x. v \<le> f x) (take i ys)"
      by (metis append_Nil2 append_take_drop_id filter_append)
    then have "length (filter (\<lambda>x. v \<le> f x) ys) \<le> i"
      using length_filter_le [of "\<lambda>x. v \<le> f x" "take i ys"] by simp
    with assms(2) show False by linarith
  qed
  with i show ?thesis by simp
qed

section \<open>Elitism\<close>

lemma filter_length_prefix:
  assumes "n \<le> length xs" and "\<forall>j < n. Q (xs ! j)"
  shows "n \<le> length (filter Q xs)"
proof -
  have "\<forall>x \<in> set (take n xs). Q x"
    using assms by (auto simp: in_set_conv_nth)
  then have "filter Q (take n xs) = take n xs" by (simp add: filter_id_conv)
  then have "length (filter Q (take n xs)) = n" using assms(1) by simp
  moreover have "filter Q xs = filter Q (take n xs) @ filter Q (drop n xs)"
    by (metis append_take_drop_id filter_append)
  ultimately show ?thesis by simp
qed

lemma filter_length_submset:
  assumes "mset xs \<subseteq># mset ys"
  shows "length (filter Q xs) \<le> length (filter Q ys)"
proof -
  have "filter_mset Q (mset xs) \<subseteq># filter_mset Q (mset ys)"
    using assms by (rule multiset_filter_mono)
  then have "size (filter_mset Q (mset xs)) \<le> size (filter_mset Q (mset ys))"
    by (rule size_mset_mono)
  then show ?thesis by (simp flip: mset_filter)
qed

lemma elite_front:
  assumes "evaluated P s" and "nextGeneration P rs s = Inr s'"
    and "int i < elitismCount (config s)" and "i < length (population s)"
  shows "i < length (population s')
    \<and> fitness (heap s ! (population s ! i)) \<le> fitness (heap s' ! (population s' ! i))"
proof -
  define k where "k = length (slice0 (elitismCount (config s)) (population s))"
  define n0 where "n0 = length (heap s)"
  define v where "v = fitness (heap s ! (population s ! i))"
  define elite where "elite = map (\<lambda>i. n0 + i) [0..<k]"
  let ?Q = "\<lambda>p. v \<le> fitness (heap s' ! p)"
  have valid: "\<forall>p \<in> set (population s). p < length (heap s)"
    using assms(1) by (simp add: evaluated_def)
  note nf = nextGeneration_facts [OF assms(2) valid k_def n0_def]
  have m: "mset elite \<subseteq># mset (population s')"
    unfolding elite_def by (rule nf [THEN conjunct1])
  have ev: "evaluated P s'" using nf by simp
  have new: "\<forall>j < k. heap s' ! (n0 + j) = rescore P (config s) (heap s ! (population s ! j))"
    using nf by simp
  have ik: "i < k"
    using slice0_facts [of "elitismCount (config s)" "population s"] assms(3,4)
    by (simp add: k_def)
  have front: "\<forall>j < Suc i. ?Q (elite ! j)"
  proof (intro allI impI)
    fix j assume j: "j < Suc i"
    then have jk: "j < k" and jl: "j < length (population s)" using ik assms(4) by simp_all
    have "fresh P (config s) (heap s ! (population s ! j))"
      using assms(1) jl by (simp add: evaluated_def)
    then have "heap s' ! (n0 + j) = heap s ! (population s ! j)"
      using new jk by (simp add: rescore_fresh)
    moreover have "v \<le> fitness (heap s ! (population s ! j))"
      using assms(1,4) j unfolding v_def evaluated_def ordered_def
      by (cases "j = i") (auto simp: sorted_wrt_iff_nth_less)
    ultimately show "?Q (elite ! j)" using jk by (simp add: elite_def)
  qed
  have "Suc i \<le> length (filter ?Q elite)"
    using ik front by (intro filter_length_prefix) (simp_all add: elite_def)
  also have "\<dots> \<le> length (filter ?Q (population s'))"
    using m by (rule filter_length_submset)
  finally have "i < length (filter ?Q (population s'))" by simp
  moreover have "sorted_wrt (\<lambda>p q. fitness (heap s' ! p) \<ge> fitness (heap s' ! q)) (population s')"
    using ev by (simp add: evaluated_def ordered_def)
  ultimately show ?thesis
    using rank_bound [of "\<lambda>p. fitness (heap s' ! p)" "population s'" i v] by (simp add: v_def)
qed

text \<open>
  Claim C6. From an evaluated population (every agent scored from its chromosome, the
  array sorted by descending fitness), one generation does not lower the elite front: at
  every rank \<open>i\<close> below \<open>elitismCount\<close> the fitness in the new population is at least
  the fitness at rank \<open>i\<close> in the old one. The elite of \<open>selectElite\<close> are copies: each
  is a newly allocated object, different from every object of the old population, with
  the fields of the old agent of its rank; it is a member of the new population; and
  the objects of the old population are left as they were. Every state in which a run
  stands at the head of its loop is evaluated (lemma \<open>loop_head_inv\<close>), so this holds
  of every generation transition of a run.
\<close>

theorem C6_elitism:
  assumes "evaluated P s" and "nextGeneration P rs s = Inr s'"
    and "elite = fst (selectElite s)" and "s1 = snd (selectElite s)"
  shows "(\<forall>i. int i < elitismCount (config s) \<and> i < length (population s) \<longrightarrow>
            i < length (population s')
            \<and> fitness (heap s ! (population s ! i)) \<le> fitness (heap s' ! (population s' ! i)))
    \<and> length elite = length (slice0 (elitismCount (config s)) (population s))
    \<and> distinct elite
    \<and> (\<forall>i < length elite.
          length (heap s) \<le> elite ! i
          \<and> elite ! i \<notin> set (population s)
          \<and> heap s1 ! (elite ! i) = heap s ! (population s ! i)
          \<and> elite ! i \<in> set (population s')
          \<and> heap s' ! (elite ! i) = heap s ! (population s ! i))
    \<and> (\<forall>q < length (heap s). heap s' ! q = heap s ! q)"
proof -
  define k where "k = length (slice0 (elitismCount (config s)) (population s))"
  define n0 where "n0 = length (heap s)"
  have valid: "\<forall>p \<in> set (population s). p < length (heap s)"
    using assms(1) by (simp add: evaluated_def)
  note sl = slice0_facts [of "elitismCount (config s)" "population s"]
  note nf = nextGeneration_facts [OF assms(2) valid k_def n0_def]
  have m: "mset (map (\<lambda>i. n0 + i) [0..<k]) \<subseteq># mset (population s')"
    by (rule nf [THEN conjunct1])
  have el: "elite = map (\<lambda>i. n0 + i) [0..<k]"
    using nf by (simp add: assms(3))
  have h1: "heap s1 = heap s @ map (\<lambda>p. heap s ! p) (slice0 (elitismCount (config s)) (population s))"
    using nf by (simp add: assms(4))
  have old: "\<forall>q < n0. heap s' ! q = heap s ! q"
    using nf by simp
  have new: "\<forall>j < k. heap s' ! (n0 + j) = rescore P (config s) (heap s ! (population s ! j))"
    using nf by simp
  have front: "\<forall>i. int i < elitismCount (config s) \<and> i < length (population s) \<longrightarrow>
      i < length (population s')
      \<and> fitness (heap s ! (population s ! i)) \<le> fitness (heap s' ! (population s' ! i))"
    using elite_front [OF assms(1,2)] by (intro allI impI) simp
  have len: "length elite = k" by (simp add: el)
  have dist: "distinct elite" by (simp add: el distinct_map inj_on_def)
  have each: "\<forall>i < length elite.
      length (heap s) \<le> elite ! i
      \<and> elite ! i \<notin> set (population s)
      \<and> heap s1 ! (elite ! i) = heap s ! (population s ! i)
      \<and> elite ! i \<in> set (population s')
      \<and> heap s' ! (elite ! i) = heap s ! (population s ! i)"
  proof (intro allI impI)
    fix i assume "i < length elite"
    then have i: "i < k" by (simp add: len)
    then have il: "i < length (population s)" using sl by (simp add: k_def)
    have e: "elite ! i = n0 + i" using i by (simp add: el)
    have a: "length (heap s) \<le> elite ! i" by (simp add: e n0_def)
    have b: "elite ! i \<notin> set (population s)" using valid a by auto
    have c: "heap s1 ! (elite ! i) = heap s ! (population s ! i)"
      using i sl by (simp add: e h1 n0_def nth_append k_def)
    have "n0 + i \<in> set (map (\<lambda>i. n0 + i) [0..<k])" using i by simp
    then have d: "elite ! i \<in> set (population s')"
      using set_mset_mono [OF m] by (auto simp: e)
    have "fresh P (config s) (heap s ! (population s ! i))"
      using assms(1) il by (simp add: evaluated_def)
    then have "heap s' ! (elite ! i) = heap s ! (population s ! i)"
      using new i by (simp add: e rescore_fresh)
    with a b c d show "length (heap s) \<le> elite ! i
      \<and> elite ! i \<notin> set (population s)
      \<and> heap s1 ! (elite ! i) = heap s ! (population s ! i)
      \<and> elite ! i \<in> set (population s')
      \<and> heap s' ! (elite ! i) = heap s ! (population s ! i)" by simp
  qed
  have len0: "length elite = length (slice0 (elitismCount (config s)) (population s))"
    using len by (simp add: k_def)
  have old0: "\<forall>q < length (heap s). heap s' ! q = heap s ! q"
    using old by (simp add: n0_def)
  show ?thesis
    by (rule conjI [OF front conjI [OF len0 conjI [OF dist conjI [OF each old0]]]])
qed


lemma smallState_evaluated: "evaluated smallParser smallState"
  by (simp add: evaluated_def ordered_def fresh_def smallState_def stateOf_def agentOf_def
      smallConfig_def smallParser_def solutionOf_def evaluate_def cleanExpression_filter
      isValidExpression_def table_parser_def calculateFitness_def DEFAULT_CONFIG_def)

lemma smallState_next:
  "nextGeneration smallParser (draws [] (1 / 2)) smallState = Inr smallNext"
  by code_simp

theorem C6_elitism_witness:
  "evaluated smallParser smallState
   \<and> nextGeneration smallParser (draws [] (1 / 2)) smallState = Inr smallNext
   \<and> fst (selectElite smallState) = [2]
   \<and> population smallState = [0, 1] \<and> population smallNext = [2, 4]
   \<and> fitness (heap smallState ! (population smallState ! 0))
        \<le> fitness (heap smallNext ! (population smallNext ! 0))
   \<and> heap smallNext ! 2 = heap smallState ! 0
   \<and> heap smallNext ! 0 = heap smallState ! 0"
proof -
  note th = C6_elitism [OF smallState_evaluated smallState_next refl refl]
  have pop: "population smallState = [0, 1]" "population smallNext = [2, 4]"
    by (simp_all add: smallState_def smallNext_def stateOf_def upt_rec)
  have el: "fst (selectElite smallState) = [2]"
    by (simp add: selectElite_def slice0_def smallState_def smallConfig_def stateOf_def
        DEFAULT_CONFIG_def cloneAgent_eq upt_rec split: prod.splits)
  have e: "int 0 < elitismCount (config smallState) \<and> 0 < length (population smallState)"
    by (simp add: smallState_def smallConfig_def stateOf_def DEFAULT_CONFIG_def)
  from th have "\<forall>i. int i < elitismCount (config smallState) \<and> i < length (population smallState)
      \<longrightarrow> i < length (population smallNext)
        \<and> fitness (heap smallState ! (population smallState ! i))
            \<le> fitness (heap smallNext ! (population smallNext ! i))"
    by (rule conjunct1)
  with e have front: "fitness (heap smallState ! (population smallState ! 0))
      \<le> fitness (heap smallNext ! (population smallNext ! 0))"
    by blast
  from th have each: "\<forall>i < length (fst (selectElite smallState)).
      length (heap smallState) \<le> fst (selectElite smallState) ! i
      \<and> fst (selectElite smallState) ! i \<notin> set (population smallState)
      \<and> heap (snd (selectElite smallState)) ! (fst (selectElite smallState) ! i)
          = heap smallState ! (population smallState ! i)
      \<and> fst (selectElite smallState) ! i \<in> set (population smallNext)
      \<and> heap smallNext ! (fst (selectElite smallState) ! i)
          = heap smallState ! (population smallState ! i)"
    by (elim conjE)
  then have copy: "heap smallNext ! 2 = heap smallState ! 0"
    unfolding el pop by simp
  from th have old: "\<forall>q < length (heap smallState). heap smallNext ! q = heap smallState ! q"
    by (elim conjE)
  then have kept: "heap smallNext ! 0 = heap smallState ! 0"
    by (simp add: smallState_def stateOf_def)
  show ?thesis
    by (intro conjI smallState_evaluated smallState_next el pop front copy kept)
qed

section \<open>The loop of \<open>evolve\<close>\<close>

lemma evolveLoop_stop:
  "maxGenerations (config s) \<le> generation s \<or> converged s \<Longrightarrow>
   evolveLoop P rs s = Inr (getBestAgent s, s)"
  by (auto simp: evolveLoop.simps [of P rs s] converged_def Let_def)

lemma evolveLoop_step:
  "generation s < maxGenerations (config s) \<Longrightarrow> \<not> converged s \<Longrightarrow>
   evolveLoop P rs s =
     (case nextGeneration P rs s of
        Inl e \<Rightarrow> Inl e
      | Inr s1 \<Rightarrow> evolveLoop P rs (s1\<lparr>generation := generation s1 + 1\<rparr>))"
  by (simp add: evolveLoop.simps [of P rs s] converged_def Let_def)

lemma evolveLoop_loop_head:
  assumes "evolveLoop P rs s = Inr (res, s')" and "loop_head P rs s0 s"
  shows "loop_head P rs s0 s' \<and> res = getBestAgent s'
    \<and> (converged s' \<or> maxGenerations (config s') \<le> generation s')"
  using assms
proof (induction P rs s rule: evolveLoop.induct)
  case (1 P rs s)
  show ?case
  proof (cases "maxGenerations (config s) \<le> generation s \<or> converged s")
    case True
    with 1(2) have "res = getBestAgent s" "s' = s" by (auto simp: evolveLoop_stop)
    with True 1(3) show ?thesis by auto
  next
    case False
    then have g: "generation s < maxGenerations (config s)" and c: "\<not> converged s" by simp_all
    from 1(2) obtain s1 where nx: "nextGeneration P rs s = Inr s1"
      and rest: "evolveLoop P rs (s1\<lparr>generation := generation s1 + 1\<rparr>) = Inr (res, s')"
      by (auto simp: evolveLoop_step [OF g c] split: sum.splits)
    have lh: "loop_head P rs s0 (s1\<lparr>generation := generation s1 + 1\<rparr>)"
      using 1(3) g c nx by (rule loop_head.advanced)
    from c have c': "\<not> (case getBestAgent s of None \<Rightarrow> False
        | Some b \<Rightarrow> 99 / 100 \<le> fitness (heap s ! b))"
      by (simp add: converged_def)
    from 1(1) [OF g refl c' nx rest lh] show ?thesis .
  qed
qed

lemma evaluated_generation [simp]: "evaluated P (s\<lparr>generation := g\<rparr>) = evaluated P s"
  by (simp add: evaluated_def ordered_def)

lemma loop_head_inv:
  assumes "loop_head P rs s0 s"
  shows "evaluated P s \<and> population s \<noteq> []
    \<and> int (length (population s)) = populationSize (config s0)
    \<and> config s = config s0"
  using assms
proof (induction rule: loop_head.induct)
  case (seeded s1)
  note ip = initializePopulation_facts [of P rs s0]
  have valid: "\<forall>p \<in> set (population (initializePopulation P rs s0)).
      p < length (heap (initializePopulation P rs s0))"
    using ip by simp
  note ee = evaluateFitness_evaluated [OF seeded valid]
  note ef = evaluateFitness_facts [OF seeded]
  from ef have ne: "population s1 \<noteq> []" by (elim conjE)
  from ef have cfg: "config s1 = config (initializePopulation P rs s0)" by (elim conjE)
  from ee have ev: "evaluated P s1" by (elim conjE)
  from ee have "mset (population s1) = mset (population (initializePopulation P rs s0))"
    by (elim conjE)
  then have "length (population s1) = nat (populationSize (config s0))"
    using ip mset_eq_length by fastforce
  moreover from ne have "0 < length (population s1)" by simp
  ultimately have "int (length (population s1)) = populationSize (config s0)" by linarith
  with ev cfg ip ne show ?case by simp
next
  case (advanced s s1)
  then have ev: "evaluated P s" and len: "int (length (population s)) = populationSize (config s0)"
    and cfg: "config s = config s0" by simp_all
  have valid: "\<forall>p \<in> set (population s). p < length (heap s)"
    using ev by (simp add: evaluated_def)
  note nf = nextGeneration_facts [OF advanced(4) valid refl refl]
  from nf have ev1: "evaluated P s1" by (elim conjE)
  from nf have "config s1 = config s" by (elim conjE)
  then have cfg1: "config s1 = config s0" using cfg by simp
  from nf have "int (length (population s1))
      = max (int (length (slice0 (elitismCount (config s)) (population s))))
          (populationSize (config s))"
    by (elim conjE)
  moreover have "length (slice0 (elitismCount (config s)) (population s)) \<le> length (population s)"
    using slice0_facts by blast
  ultimately have len1: "int (length (population s1)) = populationSize (config s0)"
    using len cfg by simp
  moreover have "population s1 \<noteq> []"
    using advanced(5) len1 by auto
  ultimately show ?case using ev1 cfg1 by simp
qed


lemma evolve_loop_head:
  assumes "evolve P rs s0 = Inr (res, s')"
  shows "loop_head P rs s0 s' \<and> res = getBestAgent s'
    \<and> (converged s' \<or> maxGenerations (config s') \<le> generation s')"
proof -
  from assms obtain s1 where ev: "evaluateFitness P (initializePopulation P rs s0) = Inr s1"
    and lp: "evolveLoop P rs (s1\<lparr>generation := 0\<rparr>) = Inr (res, s')"
    by (auto simp: evolve_def split: sum.splits)
  from lp loop_head.seeded [OF ev] show ?thesis by (rule evolveLoop_loop_head)
qed

lemma evolveLoop_total:
  assumes "evaluated P s" and "population s \<noteq> []"
    and "int (length (population s)) = populationSize (config s)"
    and "1 \<le> tournamentSize (config s) \<or> populationSize (config s) \<le> elitismCount (config s)"
  shows "\<exists>res s'. evolveLoop P rs s = Inr (res, s')"
  using assms
proof (induction P rs s rule: evolveLoop.induct)
  case (1 P rs s)
  show ?case
  proof (cases "maxGenerations (config s) \<le> generation s \<or> converged s")
    case True
    then show ?thesis by (simp add: evolveLoop_stop)
  next
    case False
    then have g: "generation s < maxGenerations (config s)" and c: "\<not> converged s" by simp_all
    have valid: "\<forall>p \<in> set (population s). p < length (heap s)"
      using 1(2) by (simp add: evaluated_def)
    have pos: "1 \<le> populationSize (config s)" using 1(3,4) by (cases "population s") auto
    have tour: "1 \<le> tournamentSize (config s)
        \<or> populationSize (config s)
            \<le> int (length (slice0 (elitismCount (config s)) (population s)))"
      using 1(4,5) by (auto simp: slice0_def)
    obtain s1 where nx: "nextGeneration P rs s = Inr s1"
      using nextGeneration_total [OF 1(3) pos tour valid] by blast
    note nf = nextGeneration_facts [OF nx valid refl refl]
    from nf have ev1: "evaluated P s1" by (elim conjE)
    from nf have cfg1: "config s1 = config s" by (elim conjE)
    from nf have "int (length (population s1))
        = max (int (length (slice0 (elitismCount (config s)) (population s))))
            (populationSize (config s))"
      by (elim conjE)
    moreover have "length (slice0 (elitismCount (config s)) (population s)) \<le> length (population s)"
      using slice0_facts by blast
    ultimately have len1: "int (length (population s1)) = populationSize (config s)"
      using 1(4) by simp
    then have ne1: "population s1 \<noteq> []" using pos by auto
    let ?s2 = "s1\<lparr>generation := generation s1 + 1\<rparr>"
    from c have c': "\<not> (case getBestAgent s of None \<Rightarrow> False
        | Some b \<Rightarrow> 99 / 100 \<le> fitness (heap s ! b))"
      by (simp add: converged_def)
    have "\<exists>res s'. evolveLoop P rs ?s2 = Inr (res, s')"
      using ev1 ne1 len1 cfg1 1(5) by (intro 1(1) [OF g refl c' nx]) simp_all
    then show ?thesis by (simp add: evolveLoop_step [OF g c] nx)
  qed
qed

lemma evolve_total:
  assumes "1 \<le> populationSize (config s0)"
    and "1 \<le> tournamentSize (config s0) \<or> populationSize (config s0) \<le> elitismCount (config s0)"
  shows "\<exists>res s'. evolve P rs s0 = Inr (res, s')"
proof -
  note ip = initializePopulation_facts [of P rs s0]
  have "population (initializePopulation P rs s0) \<noteq> []"
    using ip assms(1) by (cases "population (initializePopulation P rs s0)") auto
  then obtain s1 where ev: "evaluateFitness P (initializePopulation P rs s0) = Inr s1"
    using evaluateFitness_total by blast
  from loop_head_inv [OF loop_head.seeded [OF ev]]
  have "\<exists>res s'. evolveLoop P rs (s1\<lparr>generation := 0\<rparr>) = Inr (res, s')"
    using assms(2) by (intro evolveLoop_total) simp_all
  then show ?thesis by (simp add: evolve_def ev)
qed

lemma evolve_error:
  "populationSize (config s0) \<le> 0 \<Longrightarrow> evolve P rs s0 = Inl TypeError"
  using initializePopulation_facts [of P rs s0]
  by (simp add: evolve_def evaluateFitness_error)

lemma tiny_seeded:
  "evaluateFitness tinyParser (initializePopulation tinyParser (draws [] (1 / 2)) tinyStart)
   = Inr tinySeeded"
  by code_simp


section \<open>The population across a run\<close>

lemma loop_head_nextGeneration:
  assumes "loop_head P rs s0 s"
    and "1 \<le> tournamentSize (config s0) \<or> populationSize (config s0) \<le> elitismCount (config s0)"
  shows "\<exists>s1. nextGeneration P rs s = Inr s1
    \<and> int (length (population s1)) = populationSize (config s0) \<and> evaluated P s1"
proof -
  from loop_head_inv [OF assms(1)]
  have ev: "evaluated P s" and ne: "population s \<noteq> []"
    and len: "int (length (population s)) = populationSize (config s0)"
    and cfg: "config s = config s0"
    by simp_all
  have valid: "\<forall>p \<in> set (population s). p < length (heap s)"
    using ev by (simp add: evaluated_def)
  have pos: "1 \<le> populationSize (config s)" using ne len cfg by (cases "population s") auto
  have tour: "1 \<le> tournamentSize (config s)
      \<or> populationSize (config s)
          \<le> int (length (slice0 (elitismCount (config s)) (population s)))"
    using assms(2) len cfg by (auto simp: slice0_def)
  obtain s1 where nx: "nextGeneration P rs s = Inr s1"
    using nextGeneration_total [OF ne pos tour valid] by blast
  note nf = nextGeneration_facts [OF nx valid refl refl]
  from nf have ev1: "evaluated P s1" by (elim conjE)
  from nf have "int (length (population s1))
      = max (int (length (slice0 (elitismCount (config s)) (population s))))
          (populationSize (config s))"
    by (elim conjE)
  moreover have "length (slice0 (elitismCount (config s)) (population s)) \<le> length (population s)"
    using slice0_facts by blast
  ultimately have "int (length (population s1)) = populationSize (config s0)"
    using len cfg by simp
  with nx ev1 show ?thesis by simp
qed

lemma evaluateFitness_pass:
  assumes "evaluateFitness P s = Inr s1"
  shows "length (population s1) = length (population s)
    \<and> mset (population s1) = mset (population s)
    \<and> (\<forall>p \<in> set (population s).
          p < length (heap s) \<longrightarrow> heap s1 ! p = rescore P (config s) (heap s ! p))
    \<and> ordered s1
    \<and> (\<forall>p \<in> set (population s1).
          fitness (heap s1 ! p) \<le> fitness (heap s1 ! (population s1 ! 0)))"
proof -
  note ef = evaluateFitness_facts [OF assms]
  from ef have ord: "ordered s1" by (elim conjE)
  from ef have pop: "population s1 = sort_key (\<lambda>p. - fitness (heap s1 ! p)) (population s)"
    by (elim conjE)
  from ef have hp: "heap s1
      = fold (\<lambda>p h. h[p := rescore P (config s) (h ! p)]) (population s) (heap s)"
    by (elim conjE)
  have len: "length (population s1) = length (population s)"
    using pop by (metis length_sort)
  have ms: "mset (population s1) = mset (population s)"
    using pop by (metis mset_sort)
  have cells: "\<forall>p \<in> set (population s).
      p < length (heap s) \<longrightarrow> heap s1 ! p = rescore P (config s) (heap s ! p)"
    by (simp add: hp fold_rescore_nth)
  have best: "\<forall>p \<in> set (population s1).
      fitness (heap s1 ! p) \<le> fitness (heap s1 ! (population s1 ! 0))"
    using ord ordered_best_first by blast
  show ?thesis by (intro conjI len ms cells ord best)
qed

lemma mixed_sown: "initializePopulation mixedParser mixedDraws mixedStart = mixedSown"
  by code_simp

lemma mixed_seeded: "evaluateFitness mixedParser mixedSown = Inr mixedSeeded"
  by code_simp

lemma mixed_next:
  "nextGeneration mixedParser mixedDraws mixedSeeded = Inr (mixedFinal\<lparr>generation := 0\<rparr>)"
  by code_simp

lemma mixed_evolve: "evolve mixedParser mixedDraws mixedStart = Inr (Some 3, mixedFinal)"
  by code_simp

lemma stale_scored: "evaluateFitness mixedParser staleState = Inr staleScored"
  by code_simp

lemma mixed_config:
  "populationSize (config mixedStart) = 2 \<and> tournamentSize (config mixedStart) = 1"
  by (simp add: mixedStart_def mixedConfig_def new_GeneticAlgorithm_def mergeConfig_def
      orDefault_def)

lemma mixed_populations:
  "population mixedSown = [0, 1] \<and> population mixedSeeded = [1, 0]
   \<and> population mixedFinal = [3, 2] \<and> generation mixedSeeded = 0
   \<and> fitness (heap mixedFinal ! 2) = 1 / 25 \<and> fitness (heap mixedFinal ! 3) = 1"
  by (simp add: mixedSown_def mixedSeeded_def mixedFinal_def mixedStart_def
      new_GeneticAlgorithm_def agentOf_def)

text \<open>
  Claim C2. \<open>loop_head P rs s0\<close> holds of the states in which a run of \<open>evolve\<close> from
  \<open>s0\<close> stands at the head of its loop: after seeding and the first evaluation pass,
  and after every generation transition. With \<open>populationSize \<ge> 1\<close>:

  \<^item> the seeded population has exactly \<open>populationSize\<close> members, the evaluation pass
    on it returns, and the state it returns is such a state;
  \<^item> the population of every such state has exactly \<open>populationSize\<close> members and is
    sorted by descending fitness, the best agent at position 0;
  \<^item> from every such state the generation transition returns, with a population of
    \<open>populationSize\<close> members sorted by descending fitness, provided that
    \<open>tournamentSize \<ge> 1\<close> or the elite fills the population (a tournament of size 0
    raises a TypeError in \<open>reduce\<close>);
  \<^item> a generation transition that returns from a population of that size yields one
    of that size, sorted;
  \<^item> an evaluation pass on a non-empty population returns; and a pass that returns has
    permuted the population, has written to every member the solution and fitness
    computed from its chromosome, and leaves the population sorted by descending
    fitness with the best agent at position 0;
  \<^item> the state in which \<open>evolve\<close> returns is a state at the head of the loop, and
    \<open>evolve\<close> returns under the same proviso on \<open>tournamentSize\<close>.

  (The bound \<open>elitismCount \<le> populationSize\<close> of the claim is not needed.)
\<close>

theorem C2_population_invariant:
  assumes "1 \<le> populationSize (config s0)"
  shows "int (length (population (initializePopulation P rs s0))) = populationSize (config s0)
    \<and> (\<exists>s1. evaluateFitness P (initializePopulation P rs s0) = Inr s1
          \<and> loop_head P rs s0 (s1\<lparr>generation := 0\<rparr>))
    \<and> (\<forall>s. loop_head P rs s0 s \<longrightarrow>
          int (length (population s)) = populationSize (config s0)
          \<and> ordered s
          \<and> (\<forall>p \<in> set (population s).
                fitness (heap s ! p) \<le> fitness (heap s ! (population s ! 0))))
    \<and> (\<forall>s. loop_head P rs s0 s
            \<and> (1 \<le> tournamentSize (config s0)
                \<or> populationSize (config s0) \<le> elitismCount (config s0)) \<longrightarrow>
          (\<exists>s1. nextGeneration P rs s = Inr s1
             \<and> int (length (population s1)) = populationSize (config s0) \<and> ordered s1))
    \<and> (\<forall>s s1. int (length (population s)) = populationSize (config s)
            \<and> (\<forall>p \<in> set (population s). p < length (heap s))
            \<and> nextGeneration P rs s = Inr s1 \<longrightarrow>
          int (length (population s1)) = populationSize (config s1) \<and> ordered s1)
    \<and> (\<forall>s. population s \<noteq> [] \<longrightarrow> (\<exists>s1. evaluateFitness P s = Inr s1))
    \<and> (\<forall>s s1. evaluateFitness P s = Inr s1 \<longrightarrow>
          length (population s1) = length (population s)
          \<and> mset (population s1) = mset (population s)
          \<and> (\<forall>p \<in> set (population s).
                p < length (heap s) \<longrightarrow> heap s1 ! p = rescore P (config s) (heap s ! p))
          \<and> ordered s1
          \<and> (\<forall>p \<in> set (population s1).
                fitness (heap s1 ! p) \<le> fitness (heap s1 ! (population s1 ! 0))))
    \<and> (\<forall>res s'. evolve P rs s0 = Inr (res, s') \<longrightarrow> loop_head P rs s0 s')
    \<and> (1 \<le> tournamentSize (config s0)
          \<or> populationSize (config s0) \<le> elitismCount (config s0) \<longrightarrow>
        (\<exists>res s'. evolve P rs s0 = Inr (res, s')))"
proof -
  note ip = initializePopulation_facts [of P rs s0]
  have seed: "int (length (population (initializePopulation P rs s0))) = populationSize (config s0)"
    using ip assms by simp
  have "population (initializePopulation P rs s0) \<noteq> []"
    using seed assms by (cases "population (initializePopulation P rs s0)") auto
  then obtain s1 where ev: "evaluateFitness P (initializePopulation P rs s0) = Inr s1"
    using evaluateFitness_total by blast
  have first: "\<exists>s1. evaluateFitness P (initializePopulation P rs s0) = Inr s1
      \<and> loop_head P rs s0 (s1\<lparr>generation := 0\<rparr>)"
    using ev loop_head.seeded [OF ev] by blast
  have heads: "\<forall>s. loop_head P rs s0 s \<longrightarrow>
      int (length (population s)) = populationSize (config s0)
      \<and> ordered s
      \<and> (\<forall>p \<in> set (population s).
            fitness (heap s ! p) \<le> fitness (heap s ! (population s ! 0)))"
  proof (intro allI impI)
    fix s assume "loop_head P rs s0 s"
    from loop_head_inv [OF this]
    have ev: "evaluated P s" and len: "int (length (population s)) = populationSize (config s0)"
      by simp_all
    from ev have "ordered s" by (simp add: evaluated_def)
    with len show "int (length (population s)) = populationSize (config s0)
      \<and> ordered s
      \<and> (\<forall>p \<in> set (population s).
            fitness (heap s ! p) \<le> fitness (heap s ! (population s ! 0)))"
      using ordered_best_first by blast
  qed
  have moves: "\<forall>s. loop_head P rs s0 s
        \<and> (1 \<le> tournamentSize (config s0)
            \<or> populationSize (config s0) \<le> elitismCount (config s0)) \<longrightarrow>
      (\<exists>s1. nextGeneration P rs s = Inr s1
         \<and> int (length (population s1)) = populationSize (config s0) \<and> ordered s1)"
  proof (intro allI impI, elim conjE)
    fix s
    assume "loop_head P rs s0 s"
      and "1 \<le> tournamentSize (config s0)
        \<or> populationSize (config s0) \<le> elitismCount (config s0)"
    from loop_head_nextGeneration [OF this]
    show "\<exists>s1. nextGeneration P rs s = Inr s1
      \<and> int (length (population s1)) = populationSize (config s0) \<and> ordered s1"
      by (auto simp: evaluated_def)
  qed
  have step: "\<forall>s s1. int (length (population s)) = populationSize (config s)
        \<and> (\<forall>p \<in> set (population s). p < length (heap s))
        \<and> nextGeneration P rs s = Inr s1 \<longrightarrow>
      int (length (population s1)) = populationSize (config s1) \<and> ordered s1"
  proof (intro allI impI, elim conjE)
    fix s s1
    assume len: "int (length (population s)) = populationSize (config s)"
      and valid: "\<forall>p \<in> set (population s). p < length (heap s)"
      and nx: "nextGeneration P rs s = Inr s1"
    note nf = nextGeneration_facts [OF nx valid refl refl]
    from nf have ev1: "evaluated P s1" by (elim conjE)
    from nf have cfg1: "config s1 = config s" by (elim conjE)
    from nf have "int (length (population s1))
        = max (int (length (slice0 (elitismCount (config s)) (population s))))
            (populationSize (config s))"
      by (elim conjE)
    moreover have "length (slice0 (elitismCount (config s)) (population s)) \<le> length (population s)"
      using slice0_facts by blast
    ultimately have "int (length (population s1)) = populationSize (config s1)"
      using len cfg1 by simp
    with ev1 show "int (length (population s1)) = populationSize (config s1) \<and> ordered s1"
      by (simp add: evaluated_def)
  qed
  have returns: "\<forall>s. population s \<noteq> [] \<longrightarrow> (\<exists>s1. evaluateFitness P s = Inr s1)"
    using evaluateFitness_total by blast
  have pass: "\<forall>s s1. evaluateFitness P s = Inr s1 \<longrightarrow>
      length (population s1) = length (population s)
      \<and> mset (population s1) = mset (population s)
      \<and> (\<forall>p \<in> set (population s).
            p < length (heap s) \<longrightarrow> heap s1 ! p = rescore P (config s) (heap s ! p))
      \<and> ordered s1
      \<and> (\<forall>p \<in> set (population s1).
            fitness (heap s1 ! p) \<le> fitness (heap s1 ! (population s1 ! 0)))"
    by (intro allI impI) (rule evaluateFitness_pass)
  have final: "\<forall>res s'. evolve P rs s0 = Inr (res, s') \<longrightarrow> loop_head P rs s0 s'"
    using evolve_loop_head by blast
  have total: "1 \<le> tournamentSize (config s0)
        \<or> populationSize (config s0) \<le> elitismCount (config s0) \<longrightarrow>
      (\<exists>res s'. evolve P rs s0 = Inr (res, s'))"
    using evolve_total [OF assms] by blast
  show ?thesis
    by (intro conjI seed first heads moves step returns pass final total)
qed

theorem C2_population_invariant_witness:
  "1 \<le> populationSize (config mixedStart)
   \<and> 1 \<le> tournamentSize (config mixedStart)
   \<and> population (initializePopulation mixedParser mixedDraws mixedStart) = [0, 1]
   \<and> evaluateFitness mixedParser (initializePopulation mixedParser mixedDraws mixedStart)
       = Inr mixedSeeded
   \<and> population mixedSeeded = [1, 0]
   \<and> loop_head mixedParser mixedDraws mixedStart mixedSeeded
   \<and> ordered mixedSeeded
   \<and> nextGeneration mixedParser mixedDraws mixedSeeded = Inr (mixedFinal\<lparr>generation := 0\<rparr>)
   \<and> evolve mixedParser mixedDraws mixedStart = Inr (Some 3, mixedFinal)
   \<and> population mixedFinal = [3, 2]
   \<and> fitness (heap mixedFinal ! 2) < fitness (heap mixedFinal ! 3)
   \<and> loop_head mixedParser mixedDraws mixedStart mixedFinal
   \<and> int (length (population mixedFinal)) = populationSize (config mixedStart)
   \<and> ordered mixedFinal
   \<and> evaluateFitness mixedParser staleState = Inr staleScored
   \<and> population staleState = [0, 1] \<and> population staleScored = [1, 0]
   \<and> ordered staleScored
   \<and> heap staleScored ! 0 = rescore mixedParser (config staleState) (heap staleState ! 0)
   \<and> fitness (heap staleState ! 0) = 1 \<and> fitness (heap staleScored ! 0) = 1 / 55"
proof -
  note cfg = mixed_config
  note pops = mixed_populations
  have pos: "1 \<le> populationSize (config mixedStart)" using cfg by simp
  have tour: "1 \<le> tournamentSize (config mixedStart)" using cfg by simp
  note th = C2_population_invariant [OF pos, of mixedParser mixedDraws]
  have sown: "population (initializePopulation mixedParser mixedDraws mixedStart) = [0, 1]"
    using pops by (simp add: mixed_sown)
  have seeded: "evaluateFitness mixedParser
      (initializePopulation mixedParser mixedDraws mixedStart) = Inr mixedSeeded"
    by (simp add: mixed_sown mixed_seeded)
  from th have "\<exists>s1. evaluateFitness mixedParser
        (initializePopulation mixedParser mixedDraws mixedStart) = Inr s1
      \<and> loop_head mixedParser mixedDraws mixedStart (s1\<lparr>generation := 0\<rparr>)"
    by (elim conjE)
  with seeded have "loop_head mixedParser mixedDraws mixedStart (mixedSeeded\<lparr>generation := 0\<rparr>)"
    by auto
  moreover have "mixedSeeded\<lparr>generation := 0\<rparr> = mixedSeeded"
    using pops by simp
  ultimately have lh0: "loop_head mixedParser mixedDraws mixedStart mixedSeeded" by simp
  from th have heads: "\<forall>s. loop_head mixedParser mixedDraws mixedStart s \<longrightarrow>
      int (length (population s)) = populationSize (config mixedStart)
      \<and> ordered s
      \<and> (\<forall>p \<in> set (population s).
            fitness (heap s ! p) \<le> fitness (heap s ! (population s ! 0)))"
    by (elim conjE)
  from heads lh0 have ord0: "ordered mixedSeeded" by blast
  from th have "\<forall>res s'. evolve mixedParser mixedDraws mixedStart = Inr (res, s')
      \<longrightarrow> loop_head mixedParser mixedDraws mixedStart s'"
    by (elim conjE)
  with mixed_evolve have lh: "loop_head mixedParser mixedDraws mixedStart mixedFinal"
    by blast
  from heads lh have fin: "int (length (population mixedFinal)) = populationSize (config mixedStart)"
    "ordered mixedFinal"
    by blast+
  from th have pass: "\<forall>s s1. evaluateFitness mixedParser s = Inr s1 \<longrightarrow>
      length (population s1) = length (population s)
      \<and> mset (population s1) = mset (population s)
      \<and> (\<forall>p \<in> set (population s).
            p < length (heap s) \<longrightarrow> heap s1 ! p = rescore mixedParser (config s) (heap s ! p))
      \<and> ordered s1
      \<and> (\<forall>p \<in> set (population s1).
            fitness (heap s1 ! p) \<le> fitness (heap s1 ! (population s1 ! 0)))"
    by (elim conjE)
  have st: "population staleState = [0, 1]" "population staleScored = [1, 0]"
    "fitness (heap staleState ! 0) = 1" "fitness (heap staleScored ! 0) = 1 / 55"
    "length (heap staleState) = 2"
    by (simp_all add: staleState_def staleScored_def stateOf_def agentOf_def)
  from pass stale_scored have ords: "ordered staleScored"
    and cells: "\<forall>p \<in> set (population staleState).
      p < length (heap staleState) \<longrightarrow>
        heap staleScored ! p = rescore mixedParser (config staleState) (heap staleState ! p)"
    by blast+
  from cells st have cell0:
    "heap staleScored ! 0 = rescore mixedParser (config staleState) (heap staleState ! 0)"
    by simp
  have lt: "fitness (heap mixedFinal ! 2) < fitness (heap mixedFinal ! 3)"
    using pops by simp
  from pops have p1: "population mixedSeeded = [1, 0]" and p2: "population mixedFinal = [3, 2]"
    by simp_all
  show ?thesis
    by (intro conjI pos tour sown seeded p1 lh0 ord0 mixed_next mixed_evolve p2 lt lh fin
        stale_scored st(1) st(2) ords cell0 st(3) st(4))
qed


section \<open>Termination of a run\<close>

lemma zero_seeded:
  "evaluateFitness tinyParser (initializePopulation tinyParser (draws [] (1 / 2)) zeroStart)
   = Inr zeroSeeded"
  by code_simp


lemma broken_evolve:
  "evolve tinyParser (draws [] (1 / 2)) (new_GeneticAlgorithm brokenConfig)
   = Inr (Some 2, brokenFinal)"
  by code_simp

lemma evolve_result:
  assumes "evolve P rs s0 = Inr (res, s')"
  shows "population s' \<noteq> [] \<and> res = Some (population s' ! 0)
    \<and> (99 / 100 \<le> fitness (heap s' ! (population s' ! 0))
        \<or> maxGenerations (config s') \<le> generation s')
    \<and> (\<forall>p \<in> set (population s').
          fitness (heap s' ! p) \<le> fitness (heap s' ! (population s' ! 0)))"
proof -
  note lh = evolve_loop_head [OF assms]
  then have head: "loop_head P rs s0 s'" by simp
  from loop_head_inv [OF head] have ev: "evaluated P s'" and ne: "population s' \<noteq> []"
    by simp_all
  have best: "getBestAgent s' = Some (population s' ! 0)"
    using ne by (simp add: getBestAgent_def)
  have conv: "converged s' = (99 / 100 \<le> fitness (heap s' ! (population s' ! 0)))"
    by (simp add: converged_def best)
  have "\<forall>p \<in> set (population s').
      fitness (heap s' ! p) \<le> fitness (heap s' ! (population s' ! 0))"
    using ev ordered_best_first by (auto simp: evaluated_def)
  with lh ne best conv show ?thesis by simp
qed





text \<open>
  Claim C9. With \<open>maxGenerations = 0\<close> and \<open>populationSize \<ge> 1\<close> a run on a newly
  constructed driver seeds the population, evaluates it once and returns
  \<open>population[0]\<close> of that state: the final state is the state after the first
  evaluation pass (no generation transition has run, the generation counter is 0), its
  population is the seeded population, sorted, the result has the greatest fitness in
  it, and the fitness history has exactly one entry, the fitness of the result.
\<close>

theorem C9_zero_generations:
  assumes "maxGenerations (mergeConfig pc) = 0" and "1 \<le> populationSize (mergeConfig pc)"
  shows "\<exists>s1. evaluateFitness P (initializePopulation P rs (new_GeneticAlgorithm pc)) = Inr s1
      \<and> evolve P rs (new_GeneticAlgorithm pc) = Inr (Some (population s1 ! 0), s1)
      \<and> generation s1 = 0
      \<and> mset (population s1)
          = mset (population (initializePopulation P rs (new_GeneticAlgorithm pc)))
      \<and> int (length (population s1)) = populationSize (mergeConfig pc)
      \<and> (\<forall>p \<in> set (population s1).
            fitness (heap s1 ! p) \<le> fitness (heap s1 ! (population s1 ! 0)))
      \<and> bestFitnessHistory s1 = [fitness (heap s1 ! (population s1 ! 0))]
      \<and> length (bestFitnessHistory s1) = 1"
proof -
  let ?s0 = "new_GeneticAlgorithm pc"
  have cfg0: "config ?s0 = mergeConfig pc" "generation ?s0 = 0" "bestFitnessHistory ?s0 = []"
    by (simp_all add: new_GeneticAlgorithm_def)
  note ip = initializePopulation_facts [of P rs ?s0]
  have "population (initializePopulation P rs ?s0) \<noteq> []"
    using ip assms(2) cfg0 by (cases "population (initializePopulation P rs ?s0)") auto
  then obtain s1 where ev: "evaluateFitness P (initializePopulation P rs ?s0) = Inr s1"
    using evaluateFitness_total by blast
  note ef = evaluateFitness_facts [OF ev]
  have valid: "\<forall>p \<in> set (population (initializePopulation P rs ?s0)).
      p < length (heap (initializePopulation P rs ?s0))"
    using ip by simp
  note ee = evaluateFitness_evaluated [OF ev valid]
  from ef have ne: "population s1 \<noteq> []" by (elim conjE)
  from ef have "generation s1 = generation (initializePopulation P rs ?s0)" by (elim conjE)
  then have gen: "generation s1 = 0" using ip cfg0 by simp
  from ef have "config s1 = config (initializePopulation P rs ?s0)" by (elim conjE)
  then have cfg: "config s1 = mergeConfig pc" using ip cfg0 by simp
  from ef have "bestFitnessHistory s1 = bestFitnessHistory (initializePopulation P rs ?s0)
      @ [fitness (heap s1 ! (population s1 ! 0))]"
    by (elim conjE)
  then have hist: "bestFitnessHistory s1 = [fitness (heap s1 ! (population s1 ! 0))]"
    using ip cfg0 by simp
  from ef have ord: "ordered s1" by (elim conjE)
  then have best: "\<forall>p \<in> set (population s1).
      fitness (heap s1 ! p) \<le> fitness (heap s1 ! (population s1 ! 0))"
    using ordered_best_first by blast
  from ee have m: "mset (population s1) = mset (population (initializePopulation P rs ?s0))"
    by (elim conjE)
  have len: "int (length (population s1)) = populationSize (mergeConfig pc)"
    using mset_eq_length [OF m] ip cfg0 assms(2) by simp
  have same: "s1\<lparr>generation := 0\<rparr> = s1" using gen by (cases s1) simp
  have "evolveLoop P rs s1 = Inr (getBestAgent s1, s1)"
    using assms(1) cfg gen by (intro evolveLoop_stop) simp
  then have run: "evolve P rs ?s0 = Inr (Some (population s1 ! 0), s1)"
    using ne by (simp add: evolve_def ev same getBestAgent_def)
  have one: "length (bestFitnessHistory s1) = 1" by (simp add: hist)
  show ?thesis
    by (rule exI [of _ s1]) (intro conjI ev run gen m len best hist one)
qed

theorem C9_zero_generations_witness:
  "maxGenerations (mergeConfig (tinyConfig\<lparr>maxGenerations_opt := Some 0\<rparr>)) = 0
   \<and> 1 \<le> populationSize (mergeConfig (tinyConfig\<lparr>maxGenerations_opt := Some 0\<rparr>))
   \<and> evolve tinyParser (draws [] (1 / 2)) zeroStart = Inr (Some 0, zeroSeeded)
   \<and> population zeroSeeded = [0, 1]
   \<and> length (bestFitnessHistory zeroSeeded) = 1"
proof -
  have a: "maxGenerations (mergeConfig (tinyConfig\<lparr>maxGenerations_opt := Some 0\<rparr>)) = 0"
    and b: "1 \<le> populationSize (mergeConfig (tinyConfig\<lparr>maxGenerations_opt := Some 0\<rparr>))"
    by (simp_all add: tinyConfig_def mergeConfig_def orDefault_def)
  from C9_zero_generations [OF a b, of tinyParser "draws [] (1 / 2)"]
  obtain s1 where
    "evaluateFitness tinyParser (initializePopulation tinyParser (draws [] (1 / 2))
        (new_GeneticAlgorithm (tinyConfig\<lparr>maxGenerations_opt := Some 0\<rparr>))) = Inr s1"
    and run: "evolve tinyParser (draws [] (1 / 2))
        (new_GeneticAlgorithm (tinyConfig\<lparr>maxGenerations_opt := Some 0\<rparr>))
        = Inr (Some (population s1 ! 0), s1)"
    and one: "length (bestFitnessHistory s1) = 1"
    by blast
  then have s1: "s1 = zeroSeeded" using zero_seeded by (simp add: zeroStart_def)
  have pop: "population zeroSeeded = [0, 1]" by (simp add: zeroSeeded_def)
  from run one s1 pop a b show ?thesis by (simp add: zeroStart_def)
qed

section \<open>Configurations are not validated\<close>

text \<open>
  Claim C10, as amended. The constructor validates nothing: it stores the given fields
  merged over the defaults and starts from an empty population, whatever the values.
  A run whose configuration breaks an invariant of the data model is not aborted before
  it starts: whenever \<open>populationSize \<ge> 1\<close>, and \<open>tournamentSize \<ge> 1\<close> or
  \<open>elitismCount \<ge> populationSize\<close>, the run completes and returns \<open>population[0]\<close> of
  its final population, whatever the rates, the elitism count and the tournament size.
\<close>

theorem C10_no_validation:
  "config (new_GeneticAlgorithm pc) = mergeConfig pc
   \<and> population (new_GeneticAlgorithm pc) = []
   \<and> (1 \<le> populationSize (mergeConfig pc)
        \<and> (1 \<le> tournamentSize (mergeConfig pc)
            \<or> populationSize (mergeConfig pc) \<le> elitismCount (mergeConfig pc)) \<longrightarrow>
       (\<exists>b s'. evolve P rs (new_GeneticAlgorithm pc) = Inr (Some b, s')
          \<and> population s' \<noteq> [] \<and> b = population s' ! 0))"
proof -
  let ?s0 = "new_GeneticAlgorithm pc"
  have a: "config ?s0 = mergeConfig pc" and b: "population ?s0 = []"
    by (simp_all add: new_GeneticAlgorithm_def)
  have c: "1 \<le> populationSize (mergeConfig pc)
        \<and> (1 \<le> tournamentSize (mergeConfig pc)
            \<or> populationSize (mergeConfig pc) \<le> elitismCount (mergeConfig pc)) \<longrightarrow>
       (\<exists>b s'. evolve P rs ?s0 = Inr (Some b, s')
          \<and> population s' \<noteq> [] \<and> b = population s' ! 0)"
  proof (intro impI, elim conjE)
    assume "1 \<le> populationSize (mergeConfig pc)"
      and "1 \<le> tournamentSize (mergeConfig pc)
        \<or> populationSize (mergeConfig pc) \<le> elitismCount (mergeConfig pc)"
    then obtain res s' where run: "evolve P rs ?s0 = Inr (res, s')"
      using evolve_total [of ?s0 P rs] a by auto
    from evolve_result [OF run] run
    show "\<exists>b s'. evolve P rs ?s0 = Inr (Some b, s')
        \<and> population s' \<noteq> [] \<and> b = population s' ! 0"
      by auto
  qed
  show ?thesis by (rule conjI [OF a conjI [OF b c]])
qed

theorem C10_no_validation_witness:
  "1 \<le> populationSize (mergeConfig brokenConfig)
   \<and> populationSize (mergeConfig brokenConfig) \<le> elitismCount (mergeConfig brokenConfig)
   \<and> (\<exists>b s'. evolve tinyParser (draws [] (1 / 2)) (new_GeneticAlgorithm brokenConfig)
          = Inr (Some b, s')
        \<and> population s' \<noteq> [] \<and> b = population s' ! 0)"
proof -
  have a: "1 \<le> populationSize (mergeConfig brokenConfig)"
    and b: "populationSize (mergeConfig brokenConfig) \<le> elitismCount (mergeConfig brokenConfig)"
    by (simp_all add: brokenConfig_def mergeConfig_def orDefault_def DEFAULT_CONFIG_def)
  from C10_no_validation [of brokenConfig tinyParser "draws [] (1 / 2)"] a b
  have "\<exists>b s'. evolve tinyParser (draws [] (1 / 2)) (new_GeneticAlgorithm brokenConfig)
        = Inr (Some b, s')
      \<and> population s' \<noteq> [] \<and> b = population s' ! 0"
    by blast
  with a b show ?thesis by blast
qed

text \<open>
  The claim as stated fails: a configuration with \<open>elitismCount = 5 \<ge> populationSize = 2\<close>,
  \<open>tournamentSize = 3 > populationSize\<close>, \<open>mutationRate = -1\<close> and \<open>crossoverRate = 1.5\<close>
  is accepted by the constructor, and its run goes through its generation and returns
  an agent.
\<close>

theorem C10_accepted_counterexample:
  "populationSize (config (new_GeneticAlgorithm brokenConfig))
     \<le> elitismCount (config (new_GeneticAlgorithm brokenConfig))
   \<and> populationSize (config (new_GeneticAlgorithm brokenConfig))
       < tournamentSize (config (new_GeneticAlgorithm brokenConfig))
   \<and> mutationRate (config (new_GeneticAlgorithm brokenConfig)) < 0
   \<and> 1 < crossoverRate (config (new_GeneticAlgorithm brokenConfig))
   \<and> evolve tinyParser (draws [] (1 / 2)) (new_GeneticAlgorithm brokenConfig)
       = Inr (Some 2, brokenFinal)
   \<and> generation brokenFinal = 1"
  using broken_evolve
  by (simp add: brokenConfig_def brokenFinal_def new_GeneticAlgorithm_def mergeConfig_def
      orDefault_def DEFAULT_CONFIG_def)

end
